theory Spec2Isabelle
  imports Complex_Main "HOL-Library.Multiset" "HOL-Library.AList"
begin

section \<open>Python exceptions\<close>

text \<open>
  Every raise of the modelled functions is a value of this type; a function that can
  raise returns \<open>error + 'a\<close>, with \<open>Inl\<close> for the exception.
\<close>

datatype error = IOError | KeyError | IndexError | ValueError | ZeroDivisionError
  | AttributeError

section \<open>Word: the novelty score (corpus.py, lines 15 to 44)\<close>

text \<open>
  \<open>Word.senses\<close> is a numpy array of shape (senses, 2), created as zeros and only
  ever incremented by one (main.py, lines 88 to 96): a row is the pair
  (reference count, focus count) of one sense. The counts are modelled as naturals,
  the proportions as reals.
\<close>

record Word =
  word :: string
  word_idx :: nat
  senses :: "(nat \<times> nat) list"

text \<open>
  \<open>np.nonzero\<close> of a two-dimensional array returns the pair (row indices, column
  indices) of the nonzero entries, in row-major order.
\<close>

definition np_nonzero :: "(nat \<times> nat) list \<Rightarrow> nat list \<times> nat list" where
  "np_nonzero m =
     (let cells = concat (map (\<lambda>(r, (a, b)).
                     (if a \<noteq> 0 then [(r, 0)] else []) @ (if b \<noteq> 0 then [(r, 1)] else []))
                   (enumerate 0 m))
      in (map fst cells, map snd cells))"

text \<open>
  \<open>np.unique\<close> of that pair: numpy turns the tuple into one array of two rows,
  flattens it and returns its sorted distinct values.
\<close>

definition np_unique :: "nat list \<times> nat list \<Rightarrow> nat list" where
  "np_unique t = sort (remdups (fst t @ snd t))"

definition np_max :: "real list \<Rightarrow> real" where
  "np_max xs = fold max (tl xs) (hd xs)"

text \<open>\<open>np.argmax\<close>: the first position that holds the maximum.\<close>

definition np_argmax :: "real list \<Rightarrow> nat" where
  "np_argmax xs = length (takeWhile (\<lambda>x. x \<noteq> np_max xs) xs)"

definition stripped_rows :: "(nat \<times> nat) list \<Rightarrow> (nat \<times> nat) list" where
  "stripped_rows m = filter (\<lambda>(a, b). \<not> (a = 0 \<and> b = 0)) m"

definition row_novelty :: "nat \<times> nat \<Rightarrow> real" where
  "row_novelty r = (case r of (a, b) \<Rightarrow> real b / real (a + b) - real a / real (a + b))"

text \<open>
  \<open>Word.calculate\<close>. \<open>novelty.max()\<close> of an empty array raises ValueError; an
  index beyond \<open>indices\<close> raises IndexError.
\<close>

definition calculate :: "Word \<Rightarrow> error + (real \<times> nat)" where
  "calculate w =
     (let indices = np_unique (np_nonzero (senses w));
          stripped = stripped_rows (senses w);
          novelty = map row_novelty stripped
      in if novelty = [] then Inl ValueError
         else if np_argmax novelty < length indices
           then Inr (np_max novelty, indices ! np_argmax novelty)
           else Inl IndexError)"

section \<open>Document: the initial partition (corpus.py, lines 47 to 94)\<close>

record Document =
  idx :: nat
  doc_partition :: "nat list list"
  topic_to_global_idx :: "nat list"
  words :: "nat list"
  category :: string

text \<open>
  The inner loop of lines 90 to 94: walk \<open>enumerate(prior)\<close> accumulating
  \<open>curr\<close> (here \<open>cur\<close>), and stop at the first position whose cumulated prior exceeds \<open>table\<close>.
  \<open>None\<close> is the loop running to its end without a \<open>break\<close>.
\<close>

primrec walk :: "real \<Rightarrow> real \<Rightarrow> nat \<Rightarrow> real list \<Rightarrow> nat option" where
  "walk table cur j [] = None"
| "walk table cur j (p # ps) =
     (if cur + p > table then Some j else walk table (cur + p) (Suc j) ps)"

text \<open>
  One iteration of the outer loop, for the token \<open>i\<close>, the running count \<open>N\<close>
  (already incremented) and the value \<open>table\<close> drawn by \<open>random.random()\<close>.
  Python floats are modelled as reals. Float division by zero raises
  ZeroDivisionError, \<open>self.partition[j]\<close> with \<open>j\<close> out of range raises IndexError.
\<close>

definition seat :: "real \<Rightarrow> nat \<Rightarrow> real \<Rightarrow> nat \<Rightarrow> nat list list \<Rightarrow> error + nat list list" where
  "seat alpha N table i part =
     (if real N + alpha - 1 = 0 then Inl ZeroDivisionError
      else
        let prior = map (\<lambda>c. real (length c) / (real N + alpha - 1)) part
                    @ [alpha / (real N + alpha - 1)]
        in if table > sum_list (butlast prior) then Inr (part @ [[i]])
           else (case walk table 0 0 prior of
                   None \<Rightarrow> Inr part
                 | Some j \<Rightarrow>
                     if j < length part then Inr (part[j := part ! j @ [i]])
                     else Inl IndexError))"

text \<open>
  The outer loop. The random source is explicit: \<open>draw n\<close> is the value returned by
  the call of \<open>random.random()\<close> made for the token at position \<open>n\<close>.
\<close>

primrec partition_loop ::
  "real \<Rightarrow> (nat \<Rightarrow> real) \<Rightarrow> nat \<Rightarrow> nat list \<Rightarrow> nat list list \<Rightarrow> error + nat list list" where
  "partition_loop alpha draw N [] part = Inr part"
| "partition_loop alpha draw N (i # rest) part =
     (case seat alpha (Suc N) (draw N) i part of
        Inl e \<Rightarrow> Inl e
      | Inr part' \<Rightarrow> partition_loop alpha draw (Suc N) rest part')"

definition init_partition :: "real \<Rightarrow> (nat \<Rightarrow> real) \<Rightarrow> Document \<Rightarrow> error + Document" where
  "init_partition alpha draw d =
     (case partition_loop alpha draw 0 (words d) (doc_partition d) of
        Inl e \<Rightarrow> Inl e
      | Inr p \<Rightarrow> Inr (d\<lparr>doc_partition := p\<rparr>))"

section \<open>Python containers used by Corpus\<close>

subsection \<open>Dictionaries and counters\<close>

text \<open>
  A Python dict keeps its keys in insertion order: assigning to a present key changes
  the value in place, assigning to an absent key appends the entry. This is
  \<open>AList.update\<close> on an association list. A \<open>collections.Counter\<close> is such a dict
  whose lookup of an absent key gives 0.
\<close>

type_synonym counter = "(string \<times> nat) list"

definition counter_get :: "counter \<Rightarrow> string \<Rightarrow> nat" where
  "counter_get c w = (case map_of c w of None \<Rightarrow> 0 | Some n \<Rightarrow> n)"

text \<open>\<open>self[elem] += count\<close> on a counter.\<close>

definition counter_incr :: "string \<Rightarrow> nat \<Rightarrow> counter \<Rightarrow> counter" where
  "counter_incr w n c = AList.update w (counter_get c w + n) c"

text \<open>\<open>collections.Counter(iterable)\<close>: count the elements, in order.\<close>

definition Counter :: "string list \<Rightarrow> counter" where
  "Counter xs = fold (\<lambda>w. counter_incr w 1) xs []"

definition keep_positive :: "counter \<Rightarrow> counter" where
  "keep_positive c = filter (\<lambda>(w, n). 0 < n) c"

text \<open>
  \<open>self += other\<close> on counters: add each count of \<open>other\<close> in its order, then
  drop the entries that are not positive.
\<close>

definition counter_iadd :: "counter \<Rightarrow> counter \<Rightarrow> counter" where
  "counter_iadd self other = keep_positive (fold (\<lambda>(w, n). counter_incr w n) other self)"

text \<open>
  \<open>most_common()\<close> is \<open>sorted(items, key=itemgetter(1), reverse=True)\<close>: a stable
  sort by descending count.
\<close>

definition most_common :: "counter \<Rightarrow> counter" where
  "most_common c = sort_key (\<lambda>(w, n). - int n) c"

subsection \<open>Strings and slices\<close>

text \<open>
  \<open>str.strip()\<close> removes the white space at both ends; on the single-byte
  characters these are the codes 9 to 13, 28 to 31 and 32.
\<close>

definition isspace :: "char \<Rightarrow> bool" where
  "isspace c = ((of_char c :: nat) \<in> {9, 10, 11, 12, 13, 28, 29, 30, 31, 32})"

definition strip :: "string \<Rightarrow> string" where
  "strip s = rev (dropWhile isspace (rev (dropWhile isspace s)))"

text \<open>
  \<open>s.split(' ')\<close> cuts at every single space and keeps the empty pieces:
  the empty string gives one empty piece.
\<close>

fun split_space :: "string \<Rightarrow> string list" where
  "split_space [] = [[]]"
| "split_space (c # cs) =
     (if c = CHR '' '' then [] # split_space cs
      else (case split_space cs of [] \<Rightarrow> [[c]] | w # ws \<Rightarrow> (c # w) # ws))"

text \<open>
  A slice \<open>xs[a:b]\<close>: a negative bound counts from the end, and both bounds are
  clamped to the list.
\<close>

definition slice_bound :: "int \<Rightarrow> nat \<Rightarrow> nat" where
  "slice_bound k n = (if k < 0 then nat (max 0 (k + int n)) else min (nat k) n)"

definition py_slice :: "'a list \<Rightarrow> int \<Rightarrow> int \<Rightarrow> 'a list" where
  "py_slice xs a b =
     (let s = slice_bound a (length xs); e = slice_bound b (length xs)
      in take (e - s) (drop s xs))"

subsection \<open>Loops that may raise\<close>

text \<open>A \<open>for\<close> loop over a list whose body may raise: the first exception ends it.\<close>

primrec for_each :: "('a \<Rightarrow> 's \<Rightarrow> error + 's) \<Rightarrow> 'a list \<Rightarrow> 's \<Rightarrow> error + 's" where
  "for_each body [] s = Inr s"
| "for_each body (x # xs) s =
     (case body x s of Inl e \<Rightarrow> Inl e | Inr s' \<Rightarrow> for_each body xs s')"

section \<open>Corpus (corpus.py, lines 97 to 229)\<close>

text \<open>
  The co-occurrence matrix is a \<open>scipy.sparse.dok_matrix\<close> of floats that only
  ever holds counts: a function from cells to naturals, 0 where nothing is stored,
  together with its shape. The attributes \<open>floor\<close> and \<open>output\<close> are
  \<open>floor_c\<close> and \<open>output_dir\<close> here. The attributes that Python creates later
  (\<open>idx_to_word\<close>, \<open>sentences\<close>, \<open>collocations\<close>, \<open>shape\<close>) start empty,
  and \<open>word_to_idx\<close>, which is \<open>None\<close> until \<open>get_documents\<close> assigns it
  before any read, starts as the empty dict.
\<close>

type_synonym matrix = "nat \<times> nat \<Rightarrow> nat"

record Corpus =
  floor_c :: int
  total_words :: nat
  vocab_size :: nat
  output_dir :: string
  word_counts :: counter
  docs :: "Document list"
  word_to_idx :: "(string \<times> nat) list"
  idx_to_word :: "string list"
  it :: nat
  sentences :: "string list list"
  collocations :: matrix
  shape :: "nat \<times> nat"

subsection \<open>preprocess (lines 152 to 174)\<close>

text \<open>
  The elements of the list that \<open>preprocess\<close> receives are strings; the loop of
  lines 170 and 171 replaces them, in the same list, by lists of tokens.
\<close>

datatype sentence = Str string | Tokens "string list"

text \<open>Iterating over an element, and its \<open>len\<close>.\<close>

fun items :: "sentence \<Rightarrow> string list" where
  "items (Str s) = map (\<lambda>c. [c]) s"
| "items (Tokens ts) = ts"

fun len :: "sentence \<Rightarrow> nat" where
  "len (Str s) = length s"
| "len (Tokens ts) = length ts"

text \<open>
  Lines 166 to 169: the stop words, and every counted token whose count is below
  \<open>self.floor\<close>, visited in the order of \<open>most_common()[::-1]\<close>.
\<close>

definition removal_set :: "string set \<Rightarrow> int \<Rightarrow> counter \<Rightarrow> string set" where
  "removal_set english fl wc =
     fold (\<lambda>i stopwords. if int (snd i) < fl then insert (fst i) stopwords else stopwords)
       (rev (most_common wc)) english"

text \<open>The comprehension of line 171.\<close>

definition keep_tokens :: "string set \<Rightarrow> string \<Rightarrow> string list" where
  "keep_tokens stopwords s = filter (\<lambda>i. i \<notin> stopwords) (split_space s)"

text \<open>
  Line 171, for position \<open>i\<close> of the list: \<open>s.split\<close> exists on a string only.
\<close>

definition filter_step :: "string set \<Rightarrow> nat \<Rightarrow> sentence list \<Rightarrow> error + sentence list" where
  "filter_step stopwords i xs =
     (case xs ! i of
        Str s \<Rightarrow> Inr (xs[i := Tokens (keep_tokens stopwords s)])
      | Tokens ts \<Rightarrow> Inl AttributeError)"

text \<open>
  \<open>preprocess\<close>. The tokenizer \<open>nltk.word_tokenize\<close> and the stop word list
  \<open>nltk.corpus.stopwords.words('english')\<close> belong to an external library and are
  parameters. The result holds the caller's list as the call leaves it, the returned
  list and the corpus.
\<close>

definition preprocess ::
  "(string \<Rightarrow> string list) \<Rightarrow> string set \<Rightarrow> string list \<Rightarrow> Corpus
     \<Rightarrow> error + (sentence list \<times> sentence list \<times> Corpus)" where
  "preprocess word_tokenize english sents self =
     (let ws = concat (map word_tokenize sents);
          counts = Counter ws;
          stopwords = removal_set english (floor_c self) counts
      in case for_each (filter_step stopwords) [0..<length sents] (map Str sents) of
           Inl e \<Rightarrow> Inl e
         | Inr sents' \<Rightarrow>
             Inr (sents',
                  filter (\<lambda>i. len i > 0) sents',
                  self\<lparr>word_counts :=
                    counter_iadd (word_counts self) (Counter (concat (map items sents')))\<rparr>))"

subsection \<open>get_documents (lines 127 to 150)\<close>

text \<open>The dict comprehension of lines 142 and 143.\<close>

definition build_word_to_idx :: "string list \<Rightarrow> (string \<times> nat) list" where
  "build_word_to_idx keys = fold (\<lambda>(k, i). AList.update i k) (enumerate 0 keys) []"

text \<open>Line 147: a word that is not a key raises KeyError.\<close>

primrec encode :: "(string \<times> nat) list \<Rightarrow> string list \<Rightarrow> error + nat list" where
  "encode d [] = Inr []"
| "encode d (w # ws) =
     (case map_of d w of
        None \<Rightarrow> Inl KeyError
      | Some k \<Rightarrow> (case encode d ws of Inl e \<Rightarrow> Inl e | Inr ks \<Rightarrow> Inr (k # ks)))"

definition add_doc :: "string \<Rightarrow> nat \<times> sentence \<Rightarrow> Corpus \<Rightarrow> error + Corpus" where
  "add_doc origin p self =
     (case encode (word_to_idx self) (items (snd p)) of
        Inl e \<Rightarrow> Inl e
      | Inr s \<Rightarrow>
          Inr (self\<lparr>docs := docs self @
                 [\<lparr>idx = fst p, doc_partition = [], topic_to_global_idx = [], words = s,
                   category = origin\<rparr>]\<rparr>))"

text \<open>
  The file system is a map from paths to the lines of the file, as iterating over the
  open file yields them; a path it does not hold cannot be opened. The result holds
  the returned list and the corpus.
\<close>

type_synonym files = "string \<rightharpoonup> string list"

definition get_documents ::
  "(string \<Rightarrow> string list) \<Rightarrow> string set \<Rightarrow> files \<Rightarrow> string \<Rightarrow> string \<Rightarrow> Corpus
     \<Rightarrow> error + (sentence list \<times> Corpus)" where
  "get_documents word_tokenize english fs filepath origin self =
     (case fs filepath of
        None \<Rightarrow> Inl IOError
      | Some f \<Rightarrow>
          (case preprocess word_tokenize english (map strip f) self of
             Inl e \<Rightarrow> Inl e
           | Inr (_, sents, self1) \<Rightarrow>
               let self2 = self1\<lparr>word_to_idx :=
                             build_word_to_idx (map fst (word_counts self1))\<rparr>;
                   self3 = self2\<lparr>idx_to_word := map fst (word_to_idx self2)\<rparr>
               in (case for_each (add_doc origin) (enumerate 0 sents) self3 of
                     Inl e \<Rightarrow> Inl e
                   | Inr self4 \<Rightarrow> Inr (sents, self4))))"

subsection \<open>collocations (lines 176 to 222)\<close>

text \<open>Line 200: a cell outside the shape raises IndexError.\<close>

definition cell_incr :: "nat \<times> nat \<Rightarrow> nat \<Rightarrow> nat \<Rightarrow> matrix \<Rightarrow> error + matrix" where
  "cell_incr shp a b m =
     (if a < fst shp \<and> b < snd shp then Inr (m((a, b) := m (a, b) + 1))
      else Inl IndexError)"

text \<open>Lines 196 to 200, for one token \<open>l\<close> of the window around \<open>k\<close>.\<close>

definition window_step :: "Corpus \<Rightarrow> string \<Rightarrow> string \<Rightarrow> matrix \<Rightarrow> error + matrix" where
  "window_step self k l m =
     (if l \<noteq> k \<and> l \<in> fst ` set (word_to_idx self) then
        (case map_of (word_to_idx self) l of
           None \<Rightarrow> Inl KeyError
         | Some a \<Rightarrow>
             (case map_of (word_to_idx self) k of
                None \<Rightarrow> Inl KeyError
              | Some b \<Rightarrow> cell_incr (vocab_size self, vocab_size self) a b m))
      else Inr m)"

text \<open>Lines 190 to 200, for the position \<open>j\<close> holding \<open>k\<close> of the sentence \<open>i\<close>.\<close>

definition position_step ::
  "Corpus \<Rightarrow> int \<Rightarrow> string list \<Rightarrow> nat \<times> string \<Rightarrow> matrix \<Rightarrow> error + matrix" where
  "position_step self window_size i p m =
     (case p of (j, k) \<Rightarrow>
        if k \<notin> fst ` set (word_to_idx self) then Inr m
        else
          let window_start = max 0 (int j - window_size div 2);
              window_end = min (int (length i) - 1) (int j + window_size div 2);
              occurences = py_slice i window_start window_end
          in for_each (window_step self k) occurences m)"

text \<open>The windowing pass, lines 187 to 200.\<close>

definition count_pass :: "Corpus \<Rightarrow> string list list \<Rightarrow> int \<Rightarrow> error + matrix" where
  "count_pass self corpus window_size =
     for_each (\<lambda>i. for_each (position_step self window_size i) (enumerate 0 i))
       corpus (\<lambda>c. 0)"

text \<open>
  \<open>np.nonzero\<close> of the matrix, as the list of its nonzero cells, and \<open>np.sum\<close>.
  The loop of lines 205 to 219 writes for each cell only that cell, so that
  the order of the cells does not matter.
\<close>

definition nonzero_cells :: "nat \<times> nat \<Rightarrow> matrix \<Rightarrow> (nat \<times> nat) list" where
  "nonzero_cells shp m =
     filter (\<lambda>c. m c \<noteq> 0) (List.product [0..<fst shp] [0..<snd shp])"

definition matrix_sum :: "nat \<times> nat \<Rightarrow> matrix \<Rightarrow> nat" where
  "matrix_sum shp m = sum_list (map m (List.product [0..<fst shp] [0..<snd shp]))"

text \<open>
  Lines 210 to 219 for one cell: the value written to \<open>ppmi[i, j]\<close>, from the cell's
  frequency, the total (\<open>total_sum\<close> here) and the two word counts. \<open>math.log\<close>
  raises ValueError on an argument that is not positive. Floats are modelled as reals.
  The loop visits nonzero cells only, so that the total is positive where this runs.
\<close>

definition ppmi_value :: "real \<Rightarrow> real \<Rightarrow> real \<Rightarrow> real \<Rightarrow> error + real" where
  "ppmi_value frequency total_sum count_i count_j =
     (let joint_probability = frequency / total_sum;
          probability_i = (frequency * count_i) / total_sum;
          probability_j = (frequency * count_j) / total_sum;
          denominator = probability_i * probability_j
      in if denominator > 0 then
           (if joint_probability / (probability_i * probability_j) > 0
            then Inr (max 0 (log 2 (joint_probability / (probability_i * probability_j))))
            else Inl ValueError)
         else Inr 0)"

definition ppmi_step ::
  "Corpus \<Rightarrow> matrix \<Rightarrow> real \<Rightarrow> nat \<times> nat \<Rightarrow> (nat \<times> nat \<Rightarrow> real) \<Rightarrow> error + (nat \<times> nat \<Rightarrow> real)" where
  "ppmi_step self cooccurences total_sum c ppmi =
     (case c of (i, j) \<Rightarrow>
        if i < length (idx_to_word self) \<and> j < length (idx_to_word self) then
          (case ppmi_value (real (cooccurences (i, j))) total_sum
                  (real (counter_get (word_counts self) (idx_to_word self ! i)))
                  (real (counter_get (word_counts self) (idx_to_word self ! j))) of
             Inl e \<Rightarrow> Inl e
           | Inr v \<Rightarrow> Inr (ppmi((i, j) := v)))
        else Inl IndexError)"

text \<open>The PPMI pass, lines 202 to 219.\<close>

definition ppmi_pass :: "Corpus \<Rightarrow> matrix \<Rightarrow> error + (nat \<times> nat \<Rightarrow> real)" where
  "ppmi_pass self cooccurences =
     (let shp = (vocab_size self, vocab_size self);
          total_sum = real (matrix_sum shp cooccurences)
      in for_each (ppmi_step self cooccurences total_sum) (nonzero_cells shp cooccurences)
           (\<lambda>c. 0))"

text \<open>The method \<open>collocations\<close>; the attribute of that name is the record field.\<close>

definition Corpus_collocations :: "Corpus \<Rightarrow> string list list \<Rightarrow> int \<Rightarrow> error + Corpus" where
  "Corpus_collocations self corpus window_size =
     (case count_pass self corpus window_size of
        Inl e \<Rightarrow> Inl e
      | Inr cooccurences \<Rightarrow>
          (case ppmi_pass self cooccurences of
             Inl e \<Rightarrow> Inl e
           | Inr ppmi \<Rightarrow>
               Inr (self\<lparr>collocations := cooccurences,
                         shape := (vocab_size self, vocab_size self)\<rparr>)))"

subsection \<open>The constructor (lines 100 to 125)\<close>

definition new_corpus :: "string \<Rightarrow> int \<Rightarrow> Corpus" where
  "new_corpus out fl =
     \<lparr>floor_c = fl + 1, total_words = 0, vocab_size = 0, output_dir = out, word_counts = [],
      docs = [], word_to_idx = [], idx_to_word = [], it = 0, sentences = [],
      collocations = (\<lambda>c. 0), shape = (0, 0)\<rparr>"

text \<open>
  Lines 121 to 123. \<open>focus\<close> is \<open>None\<close> or a path; the empty path is false
  in \<open>if focus\<close>, as \<open>None\<close> is.
\<close>

definition load_corpora ::
  "(string \<Rightarrow> string list) \<Rightarrow> string set \<Rightarrow> files \<Rightarrow> string \<Rightarrow> string option \<Rightarrow> Corpus
     \<Rightarrow> error + Corpus" where
  "load_corpora word_tokenize english fs reference focus self =
     (case get_documents word_tokenize english fs reference ''reference'' self of
        Inl e \<Rightarrow> Inl e
      | Inr (s1, self1) \<Rightarrow>
          let self2 = self1\<lparr>sentences := map items s1\<rparr>
          in if focus = None \<or> focus = Some [] then Inr self2
             else (case get_documents word_tokenize english fs (the focus) ''focus'' self2 of
                     Inl e \<Rightarrow> Inl e
                   | Inr (s2, self3) \<Rightarrow>
                       Inr (self3\<lparr>sentences := sentences self3 @ map items s2\<rparr>)))"

definition Corpus_init ::
  "(string \<Rightarrow> string list) \<Rightarrow> string set \<Rightarrow> files \<Rightarrow> string \<Rightarrow> string \<Rightarrow> string option
     \<Rightarrow> int \<Rightarrow> int \<Rightarrow> error + Corpus" where
  "Corpus_init word_tokenize english fs reference out focus fl window_size =
     (case load_corpora word_tokenize english fs reference focus (new_corpus out fl) of
        Inl e \<Rightarrow> Inl e
      | Inr self1 \<Rightarrow>
          let self2 = self1\<lparr>vocab_size := length (word_counts self1)\<rparr>
          in Corpus_collocations self2 (sentences self2) window_size)"

section \<open>Invariants and quantities used in the statements\<close>

text \<open>
  A counter as the code builds it: every key once, every count positive.
\<close>

definition wf_counter :: "counter \<Rightarrow> bool" where
  "wf_counter c = (distinct (map fst c) \<and> (\<forall>p \<in> set c. 0 < snd p))"

definition vocab_ok :: "Corpus \<Rightarrow> bool" where
  "vocab_ok c =
     (wf_counter (word_counts c)
      \<and> word_to_idx c = zip (map fst (word_counts c)) [0..<length (word_counts c)]
      \<and> idx_to_word c = map fst (word_counts c)
      \<and> (\<forall>d \<in> set (docs c). \<forall>t \<in> set (words d). t < length (word_counts c)))"

definition file_tokens ::
  "(string \<Rightarrow> string list) \<Rightarrow> string set \<Rightarrow> Corpus \<Rightarrow> string list \<Rightarrow> string list list" where
  "file_tokens word_tokenize english self f =
     map (keep_tokens (removal_set english (floor_c self)
            (Counter (concat (map word_tokenize (map strip f)))))) (map strip f)"

text \<open>
  The quantities of lines 210 to 216 that the statements about the PPMI pass name: the
  denominator, the logarithm of the raw ratio, and the count of the word of an id.
\<close>

definition denominator :: "real \<Rightarrow> real \<Rightarrow> real \<Rightarrow> real \<Rightarrow> real" where
  "denominator frequency total_sum count_i count_j =
     ((frequency * count_i) / total_sum) * ((frequency * count_j) / total_sum)"

definition log_ratio :: "real \<Rightarrow> real \<Rightarrow> real \<Rightarrow> real \<Rightarrow> real" where
  "log_ratio frequency total_sum count_i count_j =
     log 2 ((frequency / total_sum) / denominator frequency total_sum count_i count_j)"

definition cell_count :: "Corpus \<Rightarrow> nat \<Rightarrow> real" where
  "cell_count self i = real (counter_get (word_counts self) (idx_to_word self ! i))"

section \<open>Auxiliary facts\<close>

subsection \<open>Dictionaries and counters\<close>

lemma update_absent: "k \<notin> fst ` set al \<Longrightarrow> AList.update k v al = al @ [(k, v)]"
  by (induction al) auto

lemma set_update_subset: "set (AList.update k v al) \<subseteq> insert (k, v) (set al)"
  by (induction al) auto

lemma counter_incr_keys:
  "map fst (counter_incr w n c) = (if w \<in> set (map fst c) then map fst c else map fst c @ [w])"
  by (simp add: counter_incr_def update_keys)

lemma counter_incr_wf:
  assumes "wf_counter c" and "0 < n"
  shows "wf_counter (counter_incr w n c)"
proof -
  have "distinct (map fst (counter_incr w n c))"
    using assms(1) by (simp add: counter_incr_def wf_counter_def distinct_update)
  moreover have "0 < snd p" if "p \<in> set (counter_incr w n c)" for p
  proof -
    from that have "p = (w, counter_get c w + n) \<or> p \<in> set c"
      using set_update_subset [of w "counter_get c w + n" c] by (auto simp: counter_incr_def)
    then show ?thesis using assms by (auto simp: wf_counter_def)
  qed
  ultimately show ?thesis by (simp add: wf_counter_def)
qed

lemma fold_incr:
  assumes "wf_counter self" and "\<forall>p \<in> set other. 0 < snd p"
  shows "wf_counter (fold (\<lambda>(w, n). counter_incr w n) other self)
       \<and> (\<exists>rest. map fst (fold (\<lambda>(w, n). counter_incr w n) other self) = map fst self @ rest)
       \<and> set (map fst (fold (\<lambda>(w, n). counter_incr w n) other self))
           = set (map fst self) \<union> set (map fst other)"
  using assms
proof (induction other arbitrary: self)
  case Nil
  then show ?case by simp
next
  case (Cons p other)
  obtain w n where p: "p = (w, n)" by (cases p)
  have n: "0 < n" using Cons.prems(2) p by simp
  have wf: "wf_counter (counter_incr w n self)"
    using Cons.prems(1) n by (rule counter_incr_wf)
  have rest: "\<forall>p \<in> set other. 0 < snd p" using Cons.prems(2) by simp
  note IH = Cons.IH [OF wf rest]
  from IH obtain rest where r:
    "map fst (fold (\<lambda>(w, n). counter_incr w n) other (counter_incr w n self))
       = map fst (counter_incr w n self) @ rest" by blast
  have pre: "\<exists>rest'. map fst (counter_incr w n self) @ rest = map fst self @ rest'"
    by (simp add: counter_incr_keys)
  have keys: "set (map fst (counter_incr w n self)) = insert w (set (map fst self))"
    by (auto simp: counter_incr_keys)
  show ?case
    using IH r pre keys by (simp add: p) 
qed

lemma keep_positive_id: "\<forall>p \<in> set c. 0 < snd p \<Longrightarrow> keep_positive c = c"
  unfolding keep_positive_def by (induction c) auto

lemma wf_counter_Nil: "wf_counter []"
  by (simp add: wf_counter_def)

lemma Counter_fold: "Counter xs = fold (\<lambda>(w, n). counter_incr w n) (map (\<lambda>w. (w, 1)) xs) []"
  by (simp add: Counter_def fold_map comp_def)

lemma Counter_wf: "wf_counter (Counter xs)"
  unfolding Counter_fold using fold_incr [OF wf_counter_Nil, of "map (\<lambda>w. (w, 1)) xs"] by simp

lemma Counter_keys: "set (map fst (Counter xs)) = set xs"
  unfolding Counter_fold using fold_incr [OF wf_counter_Nil, of "map (\<lambda>w. (w, 1)) xs"]
  by (simp add: comp_def)

lemma counter_iadd_eq:
  assumes "wf_counter self" and "wf_counter other"
  shows "counter_iadd self other = fold (\<lambda>(w, n). counter_incr w n) other self"
proof -
  have "wf_counter (fold (\<lambda>(w, n). counter_incr w n) other self)"
    using fold_incr [OF assms(1), of other] assms(2) by (simp add: wf_counter_def)
  then show ?thesis
    by (simp add: counter_iadd_def keep_positive_id wf_counter_def)
qed

lemma counter_iadd_wf:
  assumes "wf_counter self" and "wf_counter other"
  shows "wf_counter (counter_iadd self other)"
    and "\<exists>rest. map fst (counter_iadd self other) = map fst self @ rest"
    and "set (map fst (counter_iadd self other)) = set (map fst self) \<union> set (map fst other)"
  using fold_incr [OF assms(1), of other] assms(2)
  by (simp_all add: counter_iadd_eq [OF assms] wf_counter_def)

subsection \<open>The filtering loop of preprocess\<close>

lemma for_each_filter_step_gen:
  "for_each (filter_step sw) [length pre..<length pre + length rest] (pre @ map Str rest)
     = Inr (pre @ map (\<lambda>s. Tokens (keep_tokens sw s)) rest)"
proof (induction rest arbitrary: pre)
  case Nil
  then show ?case by simp
next
  case (Cons s rest)
  let ?t = "Tokens (keep_tokens sw s)"
  have step: "filter_step sw (length pre) (pre @ map Str (s # rest))
      = Inr ((pre @ [?t]) @ map Str rest)"
    by (simp add: filter_step_def)
  have "length pre < length pre + length (s # rest)" by simp
  then have "[length pre..<length pre + length (s # rest)]
      = length pre # [Suc (length pre)..<length pre + length (s # rest)]"
    by (rule upt_conv_Cons)
  then have u: "[length pre..<length pre + length (s # rest)]
      = length pre # [length (pre @ [?t])..<length (pre @ [?t]) + length rest]"
    by simp
  show ?case
    unfolding u for_each.simps step using Cons.IH [of "pre @ [?t]"] by simp
qed

lemma for_each_filter_step:
  "for_each (filter_step sw) [0..<length sents] (map Str sents)
     = Inr (map (\<lambda>s. Tokens (keep_tokens sw s)) sents)"
  using for_each_filter_step_gen [of sw "[]" sents] by simp

lemma preprocess_eq:
  "preprocess word_tokenize english sents self =
     (let sw = removal_set english (floor_c self) (Counter (concat (map word_tokenize sents)));
          toks = map (keep_tokens sw) sents
      in Inr (map Tokens toks, map Tokens (filter (\<lambda>ts. ts \<noteq> []) toks),
              self\<lparr>word_counts := counter_iadd (word_counts self) (Counter (concat toks))\<rparr>))"
proof -
  have a: "filter (\<lambda>i. 0 < len i) (map (\<lambda>s. Tokens (f s)) xs)
      = map Tokens (filter (\<lambda>ts. ts \<noteq> []) (map f xs))"
    for f :: "string \<Rightarrow> string list" and xs by (induction xs) auto
  have b: "concat (map items (map (\<lambda>s. Tokens (f s)) xs)) = concat (map f xs)"
    for f :: "string \<Rightarrow> string list" and xs by (induction xs) auto
  have c: "map (\<lambda>s. Tokens (f s)) xs = map Tokens (map f xs)"
    for f :: "string \<Rightarrow> string list" and xs by simp
  show ?thesis
    unfolding preprocess_def Let_def for_each_filter_step sum.case a b
    by (simp only: c prod.case)
qed

subsection \<open>Loading a file\<close>

lemma build_gen:
  "distinct (map fst acc @ ks) \<Longrightarrow>
   fold (\<lambda>(k, i). AList.update i k) (enumerate n ks) acc = acc @ zip ks [n..<n + length ks]"
proof (induction ks arbitrary: acc n)
  case Nil
  then show ?case by simp
next
  case (Cons k ks)
  have a: "AList.update k n acc = acc @ [(k, n)]"
    using Cons.prems by (intro update_absent) auto
  have d: "distinct (map fst (acc @ [(k, n)]) @ ks)"
    using Cons.prems by auto
  show ?case
    using Cons.IH [OF d, of "Suc n"] a by (simp add: upt_conv_Cons del: upt_Suc)
qed

lemma build_word_to_idx_distinct:
  "distinct ks \<Longrightarrow> build_word_to_idx ks = zip ks [0..<length ks]"
  unfolding build_word_to_idx_def using build_gen [of "[]" ks 0] by simp

lemma map_of_zip_upt:
  assumes "distinct ks"
  shows "map_of (zip ks [0..<length ks]) w = Some k \<longleftrightarrow> k < length ks \<and> ks ! k = w"
proof
  assume "map_of (zip ks [0..<length ks]) w = Some k"
  then have "(w, k) \<in> set (zip ks [0..<length ks])" by (rule map_of_SomeD)
  then show "k < length ks \<and> ks ! k = w"
    by (auto simp: in_set_zip)
next
  assume a: "k < length ks \<and> ks ! k = w"
  then have "map_of (zip ks [0..<length ks]) (ks ! k) = Some ([0..<length ks] ! k)"
    using assms by (intro map_of_zip_nth) auto
  then show "map_of (zip ks [0..<length ks]) w = Some k" using a by simp
qed

lemma encode_ids:
  "encode d s = Inr ks \<Longrightarrow> \<forall>k \<in> set ks. \<exists>w. map_of d w = Some k"
  by (induction s arbitrary: ks) (auto split: option.splits sum.splits)

lemma encode_total:
  "set s \<subseteq> fst ` set d \<Longrightarrow> \<exists>ks. encode d s = Inr ks"
proof (induction s)
  case Nil
  then show ?case by simp
next
  case (Cons w s)
  then obtain ks where "encode d s = Inr ks" by auto
  moreover from Cons.prems obtain k where "map_of d w = Some k"
    by (cases "map_of d w") (auto simp: map_of_eq_None_iff)
  ultimately show ?case by simp
qed

lemma for_each_add_doc:
  "for_each (add_doc origin) ps c = Inr c' \<Longrightarrow>
   \<exists>new. c' = c\<lparr>docs := docs c @ new\<rparr>
     \<and> (\<forall>d \<in> set new. \<forall>t \<in> set (words d). \<exists>w. map_of (word_to_idx c) w = Some t)"
proof (induction ps arbitrary: c)
  case Nil
  then have "c' = c\<lparr>docs := docs c @ []\<rparr>" by simp
  then show ?case by (intro exI [of _ "[]"]) simp
next
  case (Cons p ps)
  from Cons.prems obtain s where s: "encode (word_to_idx c) (items (snd p)) = Inr s"
    by (auto simp: add_doc_def split: sum.splits)
  let ?d = "\<lparr>idx = fst p, doc_partition = [], topic_to_global_idx = [], words = s,
             category = origin\<rparr>"
  let ?c1 = "c\<lparr>docs := docs c @ [?d]\<rparr>"
  have step: "add_doc origin p c = Inr ?c1" by (simp add: add_doc_def s)
  with Cons.prems have "for_each (add_doc origin) ps ?c1 = Inr c'" by simp
  from Cons.IH [OF this] obtain new where
    n: "c' = ?c1\<lparr>docs := docs ?c1 @ new\<rparr>"
       "\<forall>d \<in> set new. \<forall>t \<in> set (words d). \<exists>w. map_of (word_to_idx ?c1) w = Some t"
    by blast
  have "c' = c\<lparr>docs := docs c @ (?d # new)\<rparr>" using n(1) by simp
  moreover have "\<forall>d \<in> set (?d # new). \<forall>t \<in> set (words d). \<exists>w. map_of (word_to_idx c) w = Some t"
    using n(2) encode_ids [OF s] by simp
  ultimately show ?case by blast
qed

lemma for_each_add_doc_total:
  "\<forall>p \<in> set ps. set (items (snd p)) \<subseteq> fst ` set (word_to_idx c) \<Longrightarrow>
   \<exists>c'. for_each (add_doc origin) ps c = Inr c'"
proof (induction ps arbitrary: c)
  case Nil
  then show ?case by simp
next
  case (Cons p ps)
  from Cons.prems obtain s where s: "encode (word_to_idx c) (items (snd p)) = Inr s"
    using encode_total [of "items (snd p)" "word_to_idx c"] by auto
  let ?c1 = "c\<lparr>docs := docs c @ [\<lparr>idx = fst p, doc_partition = [], topic_to_global_idx = [],
      words = s, category = origin\<rparr>]\<rparr>"
  have step: "add_doc origin p c = Inr ?c1" by (simp add: add_doc_def s)
  have "\<forall>p \<in> set ps. set (items (snd p)) \<subseteq> fst ` set (word_to_idx ?c1)"
    using Cons.prems by simp
  from Cons.IH [OF this] show ?case using step by simp
qed

lemma snd_enumerate_mem: "q \<in> set (enumerate n xs) \<Longrightarrow> snd q \<in> set xs"
  by (metis enumerate_eq_zip set_zip_rightD prod.collapse)

lemma get_documents_readable:
  fixes word_tokenize :: "string \<Rightarrow> string list" and english :: "string set"
  assumes f: "fs p = Some f" and wf: "wf_counter (word_counts self)"
  defines "toks \<equiv> file_tokens word_tokenize english self f"
  defines "wc \<equiv> counter_iadd (word_counts self) (Counter (concat toks))"
  shows "\<exists>new. get_documents word_tokenize english fs p origin self =
           Inr (map Tokens (filter (\<lambda>ts. ts \<noteq> []) toks),
                self\<lparr>word_counts := wc,
                     word_to_idx := zip (map fst wc) [0..<length wc],
                     idx_to_word := map fst wc,
                     docs := docs self @ new\<rparr>)
         \<and> (\<forall>d \<in> set new. \<forall>t \<in> set (words d). t < length wc)"
proof -
  have wfc: "wf_counter wc"
    unfolding wc_def using wf Counter_wf by (rule counter_iadd_wf(1))
  then have dist: "distinct (map fst wc)" by (simp add: wf_counter_def)
  have keys: "set (map fst wc) = set (map fst (word_counts self)) \<union> set (concat toks)"
    unfolding wc_def using counter_iadd_wf(3) [OF wf Counter_wf] Counter_keys by simp
  let ?d = "zip (map fst wc) [0..<length wc]"
  let ?c3 = "self\<lparr>word_counts := wc, word_to_idx := ?d, idx_to_word := map fst wc\<rparr>"
  let ?sents = "map Tokens (filter (\<lambda>ts. ts \<noteq> []) toks)"
  have b: "build_word_to_idx (map fst wc) = ?d"
    using build_word_to_idx_distinct [OF dist] by simp
  have mf: "map fst ?d = map fst wc" by simp
  have unfold: "get_documents word_tokenize english fs p origin self =
      (case for_each (add_doc origin) (enumerate 0 ?sents) ?c3 of
         Inl e \<Rightarrow> Inl e | Inr self4 \<Rightarrow> Inr (?sents, self4))"
    unfolding get_documents_def f option.case preprocess_eq Let_def sum.case prod.case
    by (simp only: toks_def [symmetric] file_tokens_def [symmetric] wc_def [symmetric])
      (simp add: b)
  have dom: "fst ` set ?d = set (map fst wc)"
    by (metis length_map length_upt map_fst_zip minus_nat.diff_0 set_map)
  have "\<forall>q \<in> set (enumerate 0 ?sents). set (items (snd q)) \<subseteq> fst ` set (word_to_idx ?c3)"
  proof
    fix q assume "q \<in> set (enumerate 0 ?sents)"
    then have "snd q \<in> set ?sents" by (rule snd_enumerate_mem)
    then obtain ts where "snd q = Tokens ts" "ts \<in> set toks" by auto
    then have "set (items (snd q)) \<subseteq> set (concat toks)" by auto
    then show "set (items (snd q)) \<subseteq> fst ` set (word_to_idx ?c3)"
      using keys dom by auto
  qed
  from for_each_add_doc_total [OF this] obtain c'
    where c': "for_each (add_doc origin) (enumerate 0 ?sents) ?c3 = Inr c'" by blast
  from for_each_add_doc [OF c'] obtain new where
    n: "c' = ?c3\<lparr>docs := docs ?c3 @ new\<rparr>"
       "\<forall>d \<in> set new. \<forall>t \<in> set (words d). \<exists>w. map_of (word_to_idx ?c3) w = Some t"
    by blast
  have lt: "\<forall>d \<in> set new. \<forall>t \<in> set (words d). t < length wc"
  proof (intro ballI)
    fix d t assume "d \<in> set new" "t \<in> set (words d)"
    with n(2) obtain w where "map_of ?d w = Some t" by auto
    then have "map_of (zip (map fst wc) [0..<length (map fst wc)]) w = Some t" by simp
    then show "t < length wc" using map_of_zip_upt [OF dist] by simp
  qed
  have "c' = self\<lparr>word_counts := wc, word_to_idx := ?d, idx_to_word := map fst wc,
                  docs := docs self @ new\<rparr>"
    using n(1) by simp
  with unfold c' lt show ?thesis by auto
qed

lemma vocab_ok_new_corpus: "vocab_ok (new_corpus out fl)"
  by (simp add: vocab_ok_def new_corpus_def wf_counter_def)

lemma get_documents_vocab_ok:
  fixes word_tokenize :: "string \<Rightarrow> string list" and english :: "string set"
  assumes ok: "vocab_ok self"
    and g: "get_documents word_tokenize english fs p origin self = Inr (s, c)"
  shows "vocab_ok c"
    and "\<exists>rest. map fst (word_counts c) = map fst (word_counts self) @ rest"
    and "\<exists>new wc wti itw. c = self\<lparr>word_counts := wc, word_to_idx := wti, idx_to_word := itw,
           docs := docs self @ new\<rparr>"
proof -
  from g obtain f where f: "fs p = Some f"
    by (cases "fs p") (auto simp: get_documents_def)
  have wf: "wf_counter (word_counts self)" using ok by (simp add: vocab_ok_def)
  define wc where "wc = counter_iadd (word_counts self)
     (Counter (concat (file_tokens word_tokenize english self f)))"
  from get_documents_readable [where fs = fs and p = p and f = f and self = self
      and word_tokenize = word_tokenize and english = english and origin = origin, OF f wf] g
  obtain new where c: "c = self\<lparr>word_counts := wc,
                     word_to_idx := zip (map fst wc) [0..<length wc],
                     idx_to_word := map fst wc,
                     docs := docs self @ new\<rparr>"
    and new: "\<forall>d \<in> set new. \<forall>t \<in> set (words d). t < length wc"
    unfolding wc_def by auto
  have wfc: "wf_counter wc"
    unfolding wc_def using wf Counter_wf by (rule counter_iadd_wf(1))
  obtain rest where rest: "map fst wc = map fst (word_counts self) @ rest"
    unfolding wc_def using counter_iadd_wf(2) [OF wf Counter_wf] by blast
  then have "length (map fst (word_counts self)) \<le> length (map fst wc)" by simp
  then have le: "length (word_counts self) \<le> length wc" by simp
  have old: "\<forall>d \<in> set (docs self). \<forall>t \<in> set (words d). t < length wc"
    using ok le by (fastforce simp: vocab_ok_def)
  show "vocab_ok c"
    using wfc new old by (auto simp: vocab_ok_def c)
  show "\<exists>rest. map fst (word_counts c) = map fst (word_counts self) @ rest"
    using rest by (simp add: c)
  show "\<exists>new wc wti itw. c = self\<lparr>word_counts := wc, word_to_idx := wti, idx_to_word := itw,
           docs := docs self @ new\<rparr>"
    using c by blast
qed

lemma vocab_ok_sentences: "vocab_ok (c\<lparr>sentences := x\<rparr>) = vocab_ok c"
  by (simp add: vocab_ok_def)

lemma vocab_ok_lookup:
  assumes "vocab_ok c"
  shows "map_of (word_to_idx c) w = Some k \<longleftrightarrow> k < length (word_counts c) \<and> idx_to_word c ! k = w"
proof -
  have d: "distinct (map fst (word_counts c))" using assms by (simp add: vocab_ok_def wf_counter_def)
  have "word_to_idx c = zip (map fst (word_counts c)) [0..<length (map fst (word_counts c))]"
    using assms by (simp add: vocab_ok_def)
  then show ?thesis
    using map_of_zip_upt [OF d, of w k] assms by (simp add: vocab_ok_def)
qed

subsection \<open>The passes of collocations never raise on a loaded corpus\<close>

lemma for_each_total:
  "(\<And>x s. x \<in> set xs \<Longrightarrow> \<exists>s'. body x s = Inr s') \<Longrightarrow> \<exists>s'. for_each body xs s = Inr s'"
proof (induction xs arbitrary: s)
  case Nil
  then show ?case by simp
next
  case (Cons x xs)
  from Cons.prems [of x s] obtain s1 where "body x s = Inr s1" by auto
  moreover from Cons.IH [of s1] Cons.prems obtain s2 where "for_each body xs s1 = Inr s2"
    by auto
  ultimately show ?case by simp
qed

lemma vocab_ok_key_lookup:
  assumes "vocab_ok c" and "w \<in> fst ` set (word_to_idx c)"
  shows "\<exists>k. map_of (word_to_idx c) w = Some k \<and> k < length (word_counts c)"
proof -
  from assms(2) obtain k where "map_of (word_to_idx c) w = Some k"
    by (cases "map_of (word_to_idx c) w") (auto simp: map_of_eq_None_iff)
  then show ?thesis using vocab_ok_lookup [OF assms(1)] by auto
qed

lemma window_step_total:
  assumes "vocab_ok c" and "vocab_size c = length (word_counts c)"
    and "k \<in> fst ` set (word_to_idx c)"
  shows "\<exists>m'. window_step c k l m = Inr m'"
proof (cases "l \<noteq> k \<and> l \<in> fst ` set (word_to_idx c)")
  case True
  then obtain a where a: "map_of (word_to_idx c) l = Some a" "a < length (word_counts c)"
    using vocab_ok_key_lookup [OF assms(1)] by blast
  obtain b where b: "map_of (word_to_idx c) k = Some b" "b < length (word_counts c)"
    using vocab_ok_key_lookup [OF assms(1) assms(3)] by blast
  show ?thesis using True a b assms(2) by (simp add: window_step_def cell_incr_def)
next
  case False
  then show ?thesis by (auto simp: window_step_def)
qed

lemma position_step_total:
  assumes "vocab_ok c" and "vocab_size c = length (word_counts c)"
  shows "\<exists>m'. position_step c w i p m = Inr m'"
proof (cases p)
  case (Pair j k)
  show ?thesis
  proof (cases "k \<in> fst ` set (word_to_idx c)")
    case True
    then show ?thesis
      using for_each_total [of _ "window_step c k", OF window_step_total [OF assms True]]
      by (simp add: position_step_def Pair Let_def)
  next
    case False
    then show ?thesis by (simp add: position_step_def Pair)
  qed
qed

lemma count_pass_total:
  assumes "vocab_ok c" and "vocab_size c = length (word_counts c)"
  shows "\<exists>m. count_pass c corpus w = Inr m"
  unfolding count_pass_def
  by (intro for_each_total position_step_total [OF assms])

lemma ppmi_value_total:
  assumes "0 \<le> f" and "0 \<le> t"
  shows "\<exists>v. ppmi_value f t ci cj = Inr v"
proof (cases "(f * ci / t) * (f * cj / t) > 0")
  case True
  then have "f \<noteq> 0" "t \<noteq> 0" by auto
  then have "f / t > 0" using assms by simp
  then have "(f / t) / ((f * ci / t) * (f * cj / t)) > 0"
    using True by (rule divide_pos_pos)
  then show ?thesis using True unfolding ppmi_value_def Let_def by simp
next
  case False
  then show ?thesis unfolding ppmi_value_def Let_def by simp
qed

lemma ppmi_pass_total:
  assumes "vocab_size c \<le> length (idx_to_word c)"
  shows "\<exists>pp. ppmi_pass c m = Inr pp"
  unfolding ppmi_pass_def Let_def
proof (rule for_each_total)
  fix x :: "nat \<times> nat" and s :: "nat \<times> nat \<Rightarrow> real"
  assume "x \<in> set (nonzero_cells (vocab_size c, vocab_size c) m)"
  then have "fst x < vocab_size c \<and> snd x < vocab_size c"
    by (auto simp: nonzero_cells_def)
  then obtain i j where x: "x = (i, j)" "i < vocab_size c" "j < vocab_size c"
    by (metis prod.collapse)
  obtain v where "ppmi_value (real (m (i, j))) (real (matrix_sum (vocab_size c, vocab_size c) m))
      (real (counter_get (word_counts c) (idx_to_word c ! i)))
      (real (counter_get (word_counts c) (idx_to_word c ! j))) = Inr v"
    using ppmi_value_total [of "real (m (i, j))"] by fastforce
  then show "\<exists>s'. ppmi_step c m (real (matrix_sum (vocab_size c, vocab_size c) m)) x s = Inr s'"
    using x assms by (simp add: ppmi_step_def)
qed

lemma Corpus_collocations_total:
  assumes "vocab_ok c" and "vocab_size c = length (word_counts c)"
  shows "\<exists>c'. Corpus_collocations c corpus w = Inr c'"
proof -
  obtain m where m: "count_pass c corpus w = Inr m"
    using count_pass_total [OF assms] by blast
  have "vocab_size c \<le> length (idx_to_word c)" using assms by (simp add: vocab_ok_def)
  then obtain pp where "ppmi_pass c m = Inr pp" using ppmi_pass_total by blast
  then show ?thesis using m by (simp add: Corpus_collocations_def)
qed

lemma Corpus_collocations_Inr:
  assumes "Corpus_collocations c corpus w = Inr c'"
  shows "\<exists>m pp. count_pass c corpus w = Inr m \<and> ppmi_pass c m = Inr pp
           \<and> c' = c\<lparr>collocations := m, shape := (vocab_size c, vocab_size c)\<rparr>"
  using assms by (auto simp: Corpus_collocations_def split: sum.splits)

subsection \<open>The constructor\<close>

lemma load_corpora_Inr:
  assumes "load_corpora word_tokenize english fs reference focus self = Inr c"
  shows "\<exists>s1 c1. get_documents word_tokenize english fs reference ''reference'' self = Inr (s1, c1)
     \<and> (((focus = None \<or> focus = Some []) \<and> c = c1\<lparr>sentences := map items s1\<rparr>)
        \<or> (\<exists>foc s2 c3. focus = Some foc \<and> foc \<noteq> []
             \<and> get_documents word_tokenize english fs foc ''focus''
                  (c1\<lparr>sentences := map items s1\<rparr>) = Inr (s2, c3)
             \<and> c = c3\<lparr>sentences := sentences c3 @ map items s2\<rparr>))"
  using assms unfolding load_corpora_def Let_def
  by (auto split: sum.splits prod.splits if_splits)

lemma load_corpora_vocab_ok:
  assumes "vocab_ok self"
    and "load_corpora word_tokenize english fs reference focus self = Inr c"
  shows "vocab_ok c"
proof -
  from load_corpora_Inr [OF assms(2)] obtain s1 c1 where
    g1: "get_documents word_tokenize english fs reference ''reference'' self = Inr (s1, c1)"
    and alt: "((focus = None \<or> focus = Some []) \<and> c = c1\<lparr>sentences := map items s1\<rparr>)
        \<or> (\<exists>foc s2 c3. focus = Some foc \<and> foc \<noteq> []
             \<and> get_documents word_tokenize english fs foc ''focus''
                  (c1\<lparr>sentences := map items s1\<rparr>) = Inr (s2, c3)
             \<and> c = c3\<lparr>sentences := sentences c3 @ map items s2\<rparr>)"
    by blast
  have ok1: "vocab_ok (c1\<lparr>sentences := map items s1\<rparr>)"
    using get_documents_vocab_ok(1) [OF assms(1) g1] by (simp add: vocab_ok_sentences)
  from alt show ?thesis
  proof
    assume "(focus = None \<or> focus = Some []) \<and> c = c1\<lparr>sentences := map items s1\<rparr>"
    then show ?thesis using ok1 by simp
  next
    assume "\<exists>foc s2 c3. focus = Some foc \<and> foc \<noteq> []
             \<and> get_documents word_tokenize english fs foc ''focus''
                  (c1\<lparr>sentences := map items s1\<rparr>) = Inr (s2, c3)
             \<and> c = c3\<lparr>sentences := sentences c3 @ map items s2\<rparr>"
    then obtain foc s2 c3 where
      g2: "get_documents word_tokenize english fs foc ''focus''
                  (c1\<lparr>sentences := map items s1\<rparr>) = Inr (s2, c3)"
      and c: "c = c3\<lparr>sentences := sentences c3 @ map items s2\<rparr>" by blast
    show ?thesis
      using get_documents_vocab_ok(1) [OF ok1 g2] by (simp add: c vocab_ok_sentences)
  qed
qed

lemma Corpus_init_Inr:
  assumes "Corpus_init word_tokenize english fs reference out focus fl w = Inr c"
  shows "\<exists>c0 m. load_corpora word_tokenize english fs reference focus (new_corpus out fl) = Inr c0
     \<and> c = c0\<lparr>vocab_size := length (word_counts c0), collocations := m,
              shape := (length (word_counts c0), length (word_counts c0))\<rparr>"
proof -
  from assms obtain c0 where
    l: "load_corpora word_tokenize english fs reference focus (new_corpus out fl) = Inr c0"
    and k: "Corpus_collocations (c0\<lparr>vocab_size := length (word_counts c0)\<rparr>)
              (sentences (c0\<lparr>vocab_size := length (word_counts c0)\<rparr>)) w = Inr c"
    unfolding Corpus_init_def Let_def by (auto split: sum.splits)
  from Corpus_collocations_Inr [OF k] l show ?thesis by auto
qed

lemma vocab_ok_dense:
  assumes "vocab_ok c"
  shows "length (word_to_idx c) = length (word_counts c)"
    and "length (idx_to_word c) = length (word_counts c)"
    and "distinct (idx_to_word c)"
    and "map fst (word_to_idx c) = idx_to_word c"
    and "map snd (word_to_idx c) = [0..<length (word_counts c)]"
  using assms by (simp_all add: vocab_ok_def wf_counter_def)

lemma vocab_ok_vocab_size: "vocab_ok (c\<lparr>vocab_size := n\<rparr>) = vocab_ok c"
  by (simp add: vocab_ok_def)

lemma vocab_ok_collocations: "vocab_ok (c\<lparr>collocations := m, shape := sh\<rparr>) = vocab_ok c"
  by (simp add: vocab_ok_def)

lemma get_documents_total:
  fixes word_tokenize :: "string \<Rightarrow> string list" and english :: "string set"
  assumes "fs p = Some f" and "vocab_ok self"
  shows "\<exists>s c. get_documents word_tokenize english fs p origin self = Inr (s, c)"
proof -
  have wf: "wf_counter (word_counts self)" using assms(2) by (simp add: vocab_ok_def)
  from get_documents_readable [where fs = fs and p = p and f = f and self = self
      and word_tokenize = word_tokenize and english = english and origin = origin,
      OF assms(1) wf]
  show ?thesis by blast
qed

lemma load_corpora_total:
  fixes word_tokenize :: "string \<Rightarrow> string list" and english :: "string set"
  assumes r: "fs reference = Some f"
    and foc: "focus = None \<or> focus = Some [] \<or> (\<exists>g. fs (the focus) = Some g)"
    and ok: "vocab_ok self"
  shows "\<exists>c. load_corpora word_tokenize english fs reference focus self = Inr c"
proof -
  from get_documents_total [where fs = fs and p = reference, OF r ok] obtain s1 c1 where
    g1: "get_documents word_tokenize english fs reference ''reference'' self = Inr (s1, c1)"
    by blast
  have ok1: "vocab_ok (c1\<lparr>sentences := map items s1\<rparr>)"
    using get_documents_vocab_ok(1) [OF ok g1] by (simp add: vocab_ok_sentences)
  show ?thesis
  proof (cases "focus = None \<or> focus = Some []")
    case True
    then show ?thesis using g1 by (auto simp: load_corpora_def Let_def)
  next
    case False
    with foc obtain g where "fs (the focus) = Some g" by blast
    from get_documents_total [where fs = fs and p = "the focus", OF this ok1]
    obtain s2 c3 where
      "get_documents word_tokenize english fs (the focus) ''focus''
         (c1\<lparr>sentences := map items s1\<rparr>) = Inr (s2, c3)" by blast
    then show ?thesis using g1 False by (simp add: load_corpora_def Let_def)
  qed
qed

lemma Corpus_init_total:
  fixes word_tokenize :: "string \<Rightarrow> string list" and english :: "string set"
  assumes r: "fs reference = Some f"
    and foc: "focus = None \<or> focus = Some [] \<or> (\<exists>g. fs (the focus) = Some g)"
  shows "\<exists>c. Corpus_init word_tokenize english fs reference out focus fl w = Inr c"
proof -
  from load_corpora_total [where fs = fs and reference = reference and focus = focus,
      OF r foc vocab_ok_new_corpus] obtain c0 where
    l: "load_corpora word_tokenize english fs reference focus (new_corpus out fl) = Inr c0"
    by blast
  have "vocab_ok c0" using vocab_ok_new_corpus l by (rule load_corpora_vocab_ok)
  then have "vocab_ok (c0\<lparr>vocab_size := length (word_counts c0)\<rparr>)"
    by (simp add: vocab_ok_vocab_size)
  from Corpus_collocations_total [OF this] l show ?thesis
    by (simp add: Corpus_init_def Let_def)
qed

subsection \<open>The window on a sentence of three words\<close>

lemma key_of_lookup: "map_of d v = Some k \<Longrightarrow> v \<in> fst ` set d"
  by (metis map_of_eq_None_iff option.distinct(1))

lemma wide_window_counts_both:
  assumes A: "map_of (word_to_idx self) A = Some a"
    and B: "map_of (word_to_idx self) B = Some b"
    and C: "map_of (word_to_idx self) C = Some c"
    and ids: "distinct [a, b, c]"
    and bound: "a < vocab_size self" "b < vocab_size self" "c < vocab_size self"
    and w: "4 \<le> w"
  shows "\<exists>m. count_pass self [[A, B, C]] w = Inr m \<and> m (b, a) = 1 \<and> m (a, b) = 1 \<and> m (a, a) = 0"
proof -
  have h: "2 \<le> w div 2" using w by presburger
  have ne: "A \<noteq> B" "A \<noteq> C" "B \<noteq> C" using A B C ids by auto
  note mem = key_of_lookup [OF A] key_of_lookup [OF B] key_of_lookup [OF C]
  have mm: "max 0 (- (w div 2)) = 0" "min 2 (w div 2) = 2"
    "max 0 (1 - w div 2) = 0" "min 2 (1 + w div 2) = 2"
    "max 0 (2 - w div 2) = 0" "min 2 (2 + w div 2) = 2"
    using h by auto
  have "count_pass self [[A, B, C]] w
      = Inr ((\<lambda>c. 0)((b, a) := 1, (a, b) := 1, (a, c) := 1, (b, c) := 1))"
    using ne mem A B C bound ids
    by (simp add: count_pass_def position_step_def window_step_def cell_incr_def
        py_slice_def slice_bound_def enumerate_eq_zip mm upt_rec)
  then show ?thesis using ids by auto
qed

subsection \<open>The PPMI pass\<close>

lemma ppmi_value_cases:
  assumes "0 \<le> f" and "0 \<le> t"
  shows "ppmi_value f t ci cj =
     Inr (if denominator f t ci cj > 0 then max 0 (log_ratio f t ci cj) else 0)"
proof (cases "denominator f t ci cj > 0")
  case True
  then have d: "(f * ci / t) * (f * cj / t) > 0" by (simp add: denominator_def)
  then have "f \<noteq> 0" "t \<noteq> 0" by auto
  then have "f / t > 0" using assms by simp
  then have "(f / t) / ((f * ci / t) * (f * cj / t)) > 0"
    using d by (rule divide_pos_pos)
  then show ?thesis
    using d True unfolding ppmi_value_def Let_def log_ratio_def denominator_def by simp
next
  case False
  then show ?thesis unfolding ppmi_value_def Let_def denominator_def by simp
qed

lemma ppmi_loop:
  assumes "for_each (ppmi_step self m t) cells p0 = Inr p" and "0 \<le> t"
  shows "p c = (if c \<in> set cells
                then (if denominator (real (m c)) t (cell_count self (fst c)) (cell_count self (snd c)) > 0
                      then max 0 (log_ratio (real (m c)) t (cell_count self (fst c)) (cell_count self (snd c)))
                      else 0)
                else p0 c)"
  using assms(1)
proof (induction cells arbitrary: p0)
  case Nil
  then show ?case by simp
next
  case (Cons x cells)
  obtain i j where x: "x = (i, j)" by (cases x)
  let ?v = "if denominator (real (m x)) t (cell_count self i) (cell_count self j) > 0
            then max 0 (log_ratio (real (m x)) t (cell_count self i) (cell_count self j)) else 0"
  from Cons.prems have inb: "i < length (idx_to_word self) \<and> j < length (idx_to_word self)"
    by (auto simp: x ppmi_step_def split: if_splits)
  have step: "ppmi_step self m t x p0 = Inr (p0(x := ?v))"
    using inb ppmi_value_cases [of "real (m (i, j))" t] assms(2)
    by (simp add: x ppmi_step_def cell_count_def)
  with Cons.prems have "for_each (ppmi_step self m t) cells (p0(x := ?v)) = Inr p" by simp
  from Cons.IH [OF this] show ?case by (auto simp: x)
qed

subsection \<open>The partition loop and the novelty score\<close>

lemma walk_None:
  "walk table cur j ps = None \<Longrightarrow> ps \<noteq> [] \<Longrightarrow> cur + sum_list ps \<le> table"
proof (induction ps arbitrary: cur j)
  case Nil
  then show ?case by simp
next
  case (Cons p ps)
  from Cons.prems(1) have le: "cur + p \<le> table"
    and rest: "walk table (cur + p) (Suc j) ps = None"
    by (auto split: if_splits)
  show ?case
  proof (cases "ps = []")
    case True
    then show ?thesis using le by simp
  next
    case False
    from Cons.IH [OF rest False] show ?thesis by (simp add: add.assoc)
  qed
qed

lemma mset_concat_update:
  "j < length xs \<Longrightarrow> mset (concat (xs[j := xs ! j @ [i]])) = mset (concat xs) + {#i#}"
proof (induction xs arbitrary: j)
  case Nil
  then show ?case by simp
next
  case (Cons x xs)
  then show ?case by (cases j) auto
qed

lemma seat_places_token:
  assumes "seat alpha N table i part = Inr part'" and "0 < alpha" and "0 < N"
  shows "mset (concat part') = mset (concat part) + {#i#}"
proof -
  let ?d = "real N + alpha - 1"
  let ?prior = "map (\<lambda>c. real (length c) / ?d) part @ [alpha / ?d]"
  have d: "0 < ?d" using assms(2,3) by simp
  then have nz: "?d \<noteq> 0" by simp
  show ?thesis
  proof (cases "table > sum_list (butlast ?prior)")
    case True
    then have "part' = part @ [[i]]" using assms(1) nz by (simp add: seat_def Let_def)
    then show ?thesis by simp
  next
    case False
    have "sum_list ?prior = sum_list (butlast ?prior) + alpha / ?d" by simp
    moreover have "0 < alpha / ?d" using assms(2) d by simp
    ultimately have gt: "table < 0 + sum_list ?prior" using False by linarith
    obtain j where j: "walk table 0 0 ?prior = Some j"
      using walk_None [of table 0 0 ?prior] gt by (cases "walk table 0 0 ?prior") auto
    from assms(1) False j nz have "j < length part \<and> part' = part[j := part ! j @ [i]]"
      by (auto simp: seat_def Let_def split: if_splits)
    then show ?thesis by (simp add: mset_concat_update)
  qed
qed

lemma partition_loop_places_all:
  assumes "partition_loop alpha draw N ws part = Inr part'" and "0 < alpha"
  shows "mset (concat part') = mset (concat part) + mset ws"
  using assms(1)
proof (induction ws arbitrary: N part)
  case Nil
  then show ?case by simp
next
  case (Cons i ws)
  from Cons.prems obtain p1 where
    s: "seat alpha (Suc N) (draw N) i part = Inr p1"
    and r: "partition_loop alpha draw (Suc N) ws p1 = Inr part'"
    by (auto split: sum.splits)
  from seat_places_token [OF s assms(2)] Cons.IH [OF r] show ?case by simp
qed

lemma init_partition_places_all:
  assumes "init_partition alpha draw d = Inr d'" and "0 < alpha" and "doc_partition d = []"
  shows "mset (concat (doc_partition d')) = mset (words d)"
proof -
  from assms(1) obtain p where
    p: "partition_loop alpha draw 0 (words d) (doc_partition d) = Inr p"
    and d': "d' = d\<lparr>doc_partition := p\<rparr>"
    by (auto simp: init_partition_def split: sum.splits)
  from partition_loop_places_all [OF p assms(2)] show ?thesis by (simp add: d' assms(3))
qed

lemma np_max_Max: "xs \<noteq> [] \<Longrightarrow> np_max xs = Max (set xs)"
proof (cases xs)
  case Nil
  then show "xs \<noteq> [] \<Longrightarrow> np_max xs = Max (set xs)" by simp
next
  case (Cons a list)
  have "np_max (a # list) = Max (set (a # list))"
    unfolding np_max_def list.sel by (rule Max.set_eq_fold [symmetric])
  then show "xs \<noteq> [] \<Longrightarrow> np_max xs = Max (set xs)" by (simp only: Cons)
qed

lemma calculate_max:
  assumes "calculate w = Inr (m, s)"
  shows "m = Max (set (map row_novelty (stripped_rows (senses w))))"
  using assms np_max_Max [of "map row_novelty (stripped_rows (senses w))"]
  by (auto simp: calculate_def Let_def split: if_splits)

section \<open>Properties\<close>

subsection \<open>The novelty score\<close>

text \<open>
  C3. For a word whose senses matrix has a nonzero row, \<open>calculate\<close> is claimed to
  return the maximum novelty and the row index of the sense that achieves it. On a
  word observed in sense 2 only (one reference and three focus occurrences) the
  returned value is the maximum, 1/2, as it always is (\<open>calculate_max\<close>), but the
  returned index is 0, a row without any occurrence: \<open>indices\<close> mixes the column
  indices 0 and 1 with the row indices.
\<close>

theorem calculate_reports_column_index:
  "calculate \<lparr>word = ''cat'', word_idx = 0, senses = [(0, 0), (0, 0), (1, 3)]\<rparr>
     = Inr (1 / 2, 0)"
  by (simp add: calculate_def np_unique_def np_nonzero_def stripped_rows_def
      row_novelty_def np_argmax_def np_max_def enumerate_eq_zip upt_rec)

subsection \<open>The initial partition\<close>

text \<open>
  C1. After \<open>init_partition\<close> every token is claimed to lie in exactly one cluster,
  the branch for an existing cluster succeeding for every draw in [0, 1). For a
  document of one token, \<open>alpha = 1\<close> and the draw 0, the test \<open>table > sum(prior[:-1])\<close>
  is \<open>0 > 0\<close>, the walk stops at the entry of the new cluster, position 0, and
  \<open>self.partition[0]\<close> of the empty partition raises IndexError: no token is placed.
  Whenever the loop does return, for a positive \<open>alpha\<close>, every token is in exactly
  one cluster (\<open>init_partition_places_all\<close>).
\<close>

theorem init_partition_boundary_draw_raises:
  "init_partition 1 (\<lambda>n. 0)
     \<lparr>idx = 0, doc_partition = [], topic_to_global_idx = [], words = [5],
      category = ''reference''\<rparr> = Inl IndexError"
  by (simp add: init_partition_def seat_def)

subsection \<open>preprocess and the caller's list\<close>

text \<open>
  C10. \<open>preprocess\<close> never raises. It leaves in the caller's list, at every
  position, the filtered token list of the string that was there, so that no string
  remains, and it returns a second list, which holds the non-empty token lists of the
  first, in their order.
\<close>

theorem preprocess_mutates_argument:
  "\<exists>self'. preprocess word_tokenize english sents self =
     Inr (map (\<lambda>s. Tokens (keep_tokens
                 (removal_set english (floor_c self)
                    (Counter (concat (map word_tokenize sents)))) s)) sents,
          filter (\<lambda>i. len i > 0)
            (map (\<lambda>s. Tokens (keep_tokens
                 (removal_set english (floor_c self)
                    (Counter (concat (map word_tokenize sents)))) s)) sents),
          self')"
  unfolding preprocess_def Let_def for_each_filter_step by simp

subsection \<open>The vocabulary of a constructed corpus\<close>

text \<open>
  C6. When the construction of a Corpus completes, \<open>word_to_idx\<close> and
  \<open>idx_to_word\<close> have \<open>vocab_size\<close> entries each and are inverse to each other,
  the ids are the numbers below \<open>vocab_size\<close>, each given once, and every token id
  of every document is such an id, with its word in the vocabulary.
\<close>

theorem Corpus_init_vocabulary:
  assumes "Corpus_init word_tokenize english fs reference out focus fl w = Inr c"
  shows "length (word_to_idx c) = vocab_size c
       \<and> length (idx_to_word c) = vocab_size c
       \<and> distinct (idx_to_word c)
       \<and> (\<forall>v k. map_of (word_to_idx c) v = Some k \<longleftrightarrow> k < vocab_size c \<and> idx_to_word c ! k = v)
       \<and> map snd (word_to_idx c) = [0..<vocab_size c]
       \<and> (\<forall>d \<in> set (docs c). \<forall>t \<in> set (words d).
             t < vocab_size c \<and> map_of (word_to_idx c) (idx_to_word c ! t) = Some t)"
proof -
  from Corpus_init_Inr [OF assms] obtain c0 m where
    l: "load_corpora word_tokenize english fs reference focus (new_corpus out fl) = Inr c0"
    and c: "c = c0\<lparr>vocab_size := length (word_counts c0), collocations := m,
              shape := (length (word_counts c0), length (word_counts c0))\<rparr>"
    by blast
  have ok0: "vocab_ok c0" using vocab_ok_new_corpus l by (rule load_corpora_vocab_ok)
  then have ok: "vocab_ok c" by (simp add: c vocab_ok_def)
  have n: "vocab_size c = length (word_counts c)" by (simp add: c)
  note look = vocab_ok_lookup [OF ok, folded n]
  have "\<forall>d \<in> set (docs c). \<forall>t \<in> set (words d).
          t < vocab_size c \<and> map_of (word_to_idx c) (idx_to_word c ! t) = Some t"
    using ok look by (auto simp: vocab_ok_def n)
  then show ?thesis
    using vocab_ok_dense [OF ok, folded n] look by blast
qed

text \<open>A reference file of two lines, without a focus corpus.\<close>

theorem Corpus_init_vocabulary_witness:
  "\<exists>c. Corpus_init (\<lambda>s. filter (\<lambda>t. t \<noteq> []) (split_space s)) {''the''}
          [''ref.txt'' \<mapsto> [''the cat sat'', ''cat sat'']] ''ref.txt'' ''out'' None 1 10 = Inr c
       \<and> length (word_to_idx c) = vocab_size c
       \<and> length (idx_to_word c) = vocab_size c
       \<and> distinct (idx_to_word c)
       \<and> (\<forall>v k. map_of (word_to_idx c) v = Some k \<longleftrightarrow> k < vocab_size c \<and> idx_to_word c ! k = v)
       \<and> map snd (word_to_idx c) = [0..<vocab_size c]
       \<and> (\<forall>d \<in> set (docs c). \<forall>t \<in> set (words d).
             t < vocab_size c \<and> map_of (word_to_idx c) (idx_to_word c ! t) = Some t)"
proof -
  have "[''ref.txt'' \<mapsto> [''the cat sat'', ''cat sat'']] ''ref.txt''
      = Some [''the cat sat'', ''cat sat'']" by simp
  from Corpus_init_total [where fs = "[''ref.txt'' \<mapsto> [''the cat sat'', ''cat sat'']]"
      and reference = "''ref.txt''" and focus = None, OF this]
  obtain c where c: "Corpus_init (\<lambda>s. filter (\<lambda>t. t \<noteq> []) (split_space s)) {''the''}
          [''ref.txt'' \<mapsto> [''the cat sat'', ''cat sat'']] ''ref.txt'' ''out'' None 1 10 = Inr c"
    by blast
  from Corpus_init_vocabulary [OF c] c show ?thesis by blast
qed

text \<open>
  C7. With a reference and a focus corpus, the words of the reference corpus have after
  the construction the ids that the loading of the reference corpus gave them, and a
  word that only the focus corpus brings has an id above all of those.
\<close>

theorem focus_extends_vocabulary:
  assumes g1: "get_documents word_tokenize english fs reference ''reference''
                 (new_corpus out fl) = Inr (s1, c1)"
    and init: "Corpus_init word_tokenize english fs reference out (Some focus) fl w = Inr c"
    and foc: "focus \<noteq> []"
  shows "(\<forall>v k. map_of (word_to_idx c1) v = Some k \<longrightarrow> map_of (word_to_idx c) v = Some k)
       \<and> (\<forall>v k. map_of (word_to_idx c1) v = None \<longrightarrow> map_of (word_to_idx c) v = Some k \<longrightarrow>
             (\<forall>v' k'. map_of (word_to_idx c1) v' = Some k' \<longrightarrow> k' < k))"
proof -
  from Corpus_init_Inr [OF init] obtain c0 m where
    l: "load_corpora word_tokenize english fs reference (Some focus) (new_corpus out fl) = Inr c0"
    and c: "c = c0\<lparr>vocab_size := length (word_counts c0), collocations := m,
              shape := (length (word_counts c0), length (word_counts c0))\<rparr>"
    by blast
  from load_corpora_Inr [OF l] g1 foc obtain s2 c3 where
    g2: "get_documents word_tokenize english fs focus ''focus''
           (c1\<lparr>sentences := map items s1\<rparr>) = Inr (s2, c3)"
    and c0: "c0 = c3\<lparr>sentences := sentences c3 @ map items s2\<rparr>"
    by auto
  have ok1: "vocab_ok c1"
    using get_documents_vocab_ok(1) [OF vocab_ok_new_corpus g1] .
  then have ok1': "vocab_ok (c1\<lparr>sentences := map items s1\<rparr>)"
    by (simp add: vocab_ok_sentences)
  have ok3: "vocab_ok c3" using get_documents_vocab_ok(1) [OF ok1' g2] .
  then have ok: "vocab_ok c" by (simp add: c c0 vocab_ok_def)
  from get_documents_vocab_ok(2) [OF ok1' g2] obtain rest where
    "map fst (word_counts c3) = map fst (word_counts c1) @ rest" by auto
  then have keys: "idx_to_word c = idx_to_word c1 @ rest"
    using ok ok1 by (simp add: c c0 vocab_ok_def)
  have n1: "length (idx_to_word c1) = length (word_counts c1)"
    using ok1 by (simp add: vocab_ok_def)
  have n: "length (idx_to_word c) = length (word_counts c)"
    using ok by (simp add: vocab_ok_def)
  note look1 = vocab_ok_lookup [OF ok1, folded n1]
  note look = vocab_ok_lookup [OF ok, folded n]
  have keep: "map_of (word_to_idx c) v = Some k" if "map_of (word_to_idx c1) v = Some k" for v k
    using that look1 [of v k] look [of v k] keys by (simp add: nth_append)
  have fresh: "k' < k"
    if "map_of (word_to_idx c1) v = None" "map_of (word_to_idx c) v = Some k"
       "map_of (word_to_idx c1) v' = Some k'" for v k v' k'
  proof (rule ccontr)
    assume "\<not> k' < k"
    then have "k < length (idx_to_word c1)" using that(3) look1 [of v' k'] by simp
    moreover have "idx_to_word c ! k = v" using that(2) look [of v k] by simp
    ultimately have "map_of (word_to_idx c1) v = Some k"
      using look1 [of v k] keys by (simp add: nth_append)
    with that(1) show False by simp
  qed
  show ?thesis using keep fresh by blast
qed

text \<open>
  A reference file with the line \<open>cat sat\<close> and a focus file with the line
  \<open>dog sat\<close>: \<open>sat\<close> keeps the id 1.
\<close>

theorem focus_extends_vocabulary_witness:
  "\<exists>s1 c1 c.
     get_documents (\<lambda>s. filter (\<lambda>t. t \<noteq> []) (split_space s)) {''the''}
       [''ref.txt'' \<mapsto> [''cat sat''], ''foc.txt'' \<mapsto> [''dog sat'']] ''ref.txt'' ''reference''
       (new_corpus ''out'' 0) = Inr (s1, c1)
     \<and> Corpus_init (\<lambda>s. filter (\<lambda>t. t \<noteq> []) (split_space s)) {''the''}
       [''ref.txt'' \<mapsto> [''cat sat''], ''foc.txt'' \<mapsto> [''dog sat'']] ''ref.txt'' ''out''
       (Some ''foc.txt'') 0 10 = Inr c
     \<and> ''foc.txt'' \<noteq> []
     \<and> map_of (word_to_idx c1) ''sat'' = Some 1
     \<and> map_of (word_to_idx c) ''sat'' = Some 1
     \<and> (\<forall>v k. map_of (word_to_idx c1) v = None \<longrightarrow> map_of (word_to_idx c) v = Some k \<longrightarrow>
           (\<forall>v' k'. map_of (word_to_idx c1) v' = Some k' \<longrightarrow> k' < k))"
proof -
  let ?fs = "[''ref.txt'' \<mapsto> [''cat sat''], ''foc.txt'' \<mapsto> [''dog sat'']]"
  let ?tok = "\<lambda>s. filter (\<lambda>t. t \<noteq> []) (split_space s)"
  let ?c1 = "(new_corpus ''out'' 0)\<lparr>word_counts := [(''cat'', 1), (''sat'', 1)],
      word_to_idx := [(''cat'', 0), (''sat'', 1)], idx_to_word := [''cat'', ''sat''],
      docs := [\<lparr>idx = 0, doc_partition = [], topic_to_global_idx = [], words = [0, 1],
                category = ''reference''\<rparr>]\<rparr>"
  have g1: "get_documents ?tok {''the''} ?fs ''ref.txt'' ''reference'' (new_corpus ''out'' 0)
      = Inr ([Tokens [''cat'', ''sat'']], ?c1)"
    by (simp add: get_documents_def preprocess_eq strip_def isspace_def keep_tokens_def
        removal_set_def Counter_def counter_incr_def counter_get_def most_common_def
        counter_iadd_def keep_positive_def build_word_to_idx_def add_doc_def new_corpus_def
        enumerate_eq_zip)
  have r: "?fs ''ref.txt'' = Some [''cat sat'']" by simp
  have f: "Some ''foc.txt'' = None \<or> Some ''foc.txt'' = Some []
      \<or> (\<exists>g. ?fs (the (Some ''foc.txt'')) = Some g)" by simp
  from Corpus_init_total [where fs = ?fs and reference = "''ref.txt''"
      and focus = "Some ''foc.txt''", OF r f]
  obtain c where c: "Corpus_init ?tok {''the''} ?fs ''ref.txt'' ''out'' (Some ''foc.txt'') 0 10
      = Inr c" by blast
  have n: "''foc.txt'' \<noteq> []" by simp
  have s: "map_of (word_to_idx ?c1) ''sat'' = Some 1" by simp
  from focus_extends_vocabulary [OF g1 c n] g1 c s show ?thesis by blast
qed

subsection \<open>Unreadable and empty files\<close>

text \<open>
  C8, as the claim states it, asks that an empty file makes the load fail. It does not:
  for an empty reference file \<open>get_documents\<close> returns the empty list of sentences
  and the corpus it was given, without any document or word.
\<close>

theorem get_documents_empty_file_loads:
  "get_documents split_space {} [''corpus.txt'' \<mapsto> []] ''corpus.txt'' ''reference''
     (new_corpus ''out'' 1) = Inr ([], new_corpus ''out'' 1)"
  by (simp add: get_documents_def preprocess_eq Counter_def counter_iadd_def keep_positive_def
      build_word_to_idx_def new_corpus_def)

text \<open>
  C8, amended. A file that cannot be opened makes \<open>get_documents\<close> raise the I/O
  error, which nothing catches. An empty file does not raise: the call returns the
  empty list of sentences, adds no document and adds no word to the counts.
\<close>

theorem get_documents_unreadable_or_empty:
  "(fs p = None \<longrightarrow> get_documents word_tokenize english fs p origin self = Inl IOError)
   \<and> (fs p = Some [] \<longrightarrow>
        (\<exists>c. get_documents word_tokenize english fs p origin self = Inr ([], c)
           \<and> docs c = docs self
           \<and> word_counts c = keep_positive (word_counts self)))"
  by (simp add: get_documents_def preprocess_eq Counter_def counter_iadd_def)

text \<open>A missing file and an empty file, for a new corpus.\<close>

theorem get_documents_unreadable_or_empty_witness:
  "Map.empty ''corpus.txt'' = None
   \<and> get_documents split_space {} Map.empty ''corpus.txt'' ''reference'' (new_corpus ''out'' 1)
       = Inl IOError
   \<and> [''corpus.txt'' \<mapsto> []] ''corpus.txt'' = Some []
   \<and> (\<exists>c. get_documents split_space {} [''corpus.txt'' \<mapsto> []] ''corpus.txt'' ''reference''
             (new_corpus ''out'' 1) = Inr ([], c)
          \<and> docs c = docs (new_corpus ''out'' 1)
          \<and> word_counts c = keep_positive (word_counts (new_corpus ''out'' 1)))"
  using get_documents_unreadable_or_empty [where fs = Map.empty and p = "''corpus.txt''"
      and word_tokenize = split_space and english = "{}" and origin = "''reference''"
      and self = "new_corpus ''out'' 1"]
    get_documents_unreadable_or_empty [where fs = "[''corpus.txt'' \<mapsto> []]"
      and p = "''corpus.txt''"
      and word_tokenize = split_space and english = "{}" and origin = "''reference''"
      and self = "new_corpus ''out'' 1"]
  by simp

subsection \<open>What collocations stores\<close>

text \<open>
  C2. When \<open>collocations\<close> returns, the attribute \<open>collocations\<close> of the corpus is
  the matrix of raw counts of the windowing pass. The PPMI pass has run on that matrix,
  but the corpus differs from the one before the call in the attributes
  \<open>collocations\<close> and \<open>shape\<close> only, neither of which holds the PPMI matrix.
\<close>

theorem collocations_stores_raw_counts:
  assumes "Corpus_collocations self corpus w = Inr self'"
  shows "count_pass self corpus w = Inr (collocations self')
       \<and> (\<exists>ppmi. ppmi_pass self (collocations self') = Inr ppmi)
       \<and> self' = self\<lparr>collocations := collocations self',
                        shape := (vocab_size self, vocab_size self)\<rparr>"
  using Corpus_collocations_Inr [OF assms] by auto

text \<open>
  A corpus of the words \<open>cat\<close> and \<open>sat\<close> and the sentence \<open>cat sat\<close>: the
  stored cell (0, 1) is the count 1.
\<close>

theorem collocations_stores_raw_counts_witness:
  "\<exists>self'.
     Corpus_collocations
       ((new_corpus ''out'' 0)\<lparr>vocab_size := 2, word_counts := [(''cat'', 1), (''sat'', 1)],
          word_to_idx := [(''cat'', 0), (''sat'', 1)], idx_to_word := [''cat'', ''sat'']\<rparr>)
       [[''cat'', ''sat'']] 10 = Inr self'
     \<and> count_pass
       ((new_corpus ''out'' 0)\<lparr>vocab_size := 2, word_counts := [(''cat'', 1), (''sat'', 1)],
          word_to_idx := [(''cat'', 0), (''sat'', 1)], idx_to_word := [''cat'', ''sat'']\<rparr>)
       [[''cat'', ''sat'']] 10 = Inr (collocations self')
     \<and> collocations self' (0, 1) = 1
     \<and> shape self' = (2, 2)"
proof -
  let ?c = "(new_corpus ''out'' 0)\<lparr>vocab_size := 2,
      word_counts := [(''cat'', 1), (''sat'', 1)],
      word_to_idx := [(''cat'', 0), (''sat'', 1)], idx_to_word := [''cat'', ''sat'']\<rparr>"
  have ok: "vocab_ok ?c" by (simp add: vocab_ok_def wf_counter_def new_corpus_def)
  have n: "vocab_size ?c = length (word_counts ?c)" by simp
  from Corpus_collocations_total [OF ok n] obtain self' where
    k: "Corpus_collocations ?c [[''cat'', ''sat'']] 10 = Inr self'" by blast
  have m: "count_pass ?c [[''cat'', ''sat'']] 10 = Inr ((\<lambda>c. 0)((0, 1) := 1))"
    by (simp add: count_pass_def position_step_def window_step_def cell_incr_def
        py_slice_def slice_bound_def enumerate_eq_zip)
  from collocations_stores_raw_counts [OF k] have
    a: "count_pass ?c [[''cat'', ''sat'']] 10 = Inr (collocations self')"
    and b: "self' = ?c\<lparr>collocations := collocations self', shape := (vocab_size ?c, vocab_size ?c)\<rparr>"
    by blast+
  from a m have "collocations self' = (\<lambda>c. 0)((0, 1) := 1)" by simp
  then have "collocations self' (0, 1) = 1" by simp
  moreover have "shape self' = (2, 2)" by (subst b) simp
  ultimately show ?thesis using k a by blast
qed

subsection \<open>The window of the co-occurrence counts\<close>

text \<open>
  C4. For one sentence of three distinct vocabulary words A, B, C and every window size
  of at least 2, the cells (id B, id A) and (id A, id B) are claimed to be incremented
  once each, and no diagonal cell. For the window sizes 2 and 3 the slice of line 195
  around A is \<open>i[0:1]\<close>, which holds A alone: the cell (id B, id A) stays 0. The cell
  (id A, id B) is 1 and the diagonal cell is 0, as claimed.
\<close>

theorem narrow_window_misses_next_token:
  assumes A: "map_of (word_to_idx self) A = Some a"
    and B: "map_of (word_to_idx self) B = Some b"
    and C: "map_of (word_to_idx self) C = Some c"
    and ids: "distinct [a, b, c]"
    and bound: "a < vocab_size self" "b < vocab_size self" "c < vocab_size self"
    and w: "2 \<le> w" "w \<le> 3"
  shows "\<exists>m. count_pass self [[A, B, C]] w = Inr m \<and> m (b, a) = 0 \<and> m (a, b) = 1 \<and> m (a, a) = 0"
proof -
  have h: "w div 2 = 1" using w by presburger
  have ne: "A \<noteq> B" "A \<noteq> C" "B \<noteq> C" using A B C ids by auto
  note mem = key_of_lookup [OF A] key_of_lookup [OF B] key_of_lookup [OF C]
  have "count_pass self [[A, B, C]] w = Inr ((\<lambda>c. 0)((a, b) := 1, (b, c) := 1))"
    using ne mem A B C bound ids
    by (simp add: count_pass_def position_step_def window_step_def cell_incr_def
        py_slice_def slice_bound_def enumerate_eq_zip h upt_rec)
  then show ?thesis using ids by auto
qed

text \<open>The sentence \<open>cat sat mat\<close> with the window size 2.\<close>

theorem narrow_window_misses_next_token_witness:
  "\<exists>m. count_pass
       ((new_corpus ''out'' 0)\<lparr>vocab_size := 3,
          word_counts := [(''cat'', 1), (''sat'', 1), (''mat'', 1)],
          word_to_idx := [(''cat'', 0), (''sat'', 1), (''mat'', 2)],
          idx_to_word := [''cat'', ''sat'', ''mat'']\<rparr>)
       [[''cat'', ''sat'', ''mat'']] 2 = Inr m
     \<and> m (1, 0) = 0 \<and> m (0, 1) = 1 \<and> m (0, 0) = 0"
  using narrow_window_misses_next_token [where A = "''cat''" and B = "''sat''" and C = "''mat''"
      and a = 0 and b = 1 and c = 2 and w = 2
      and self = "(new_corpus ''out'' 0)\<lparr>vocab_size := 3,
          word_counts := [(''cat'', 1), (''sat'', 1), (''mat'', 1)],
          word_to_idx := [(''cat'', 0), (''sat'', 1), (''mat'', 2)],
          idx_to_word := [''cat'', ''sat'', ''mat'']\<rparr>"]
  by simp

subsection \<open>The floor of the word counts\<close>

text \<open>
  C5. A word with fewer occurrences than \<open>self.floor\<close> is claimed never to become a
  key of \<open>word_to_idx\<close>. The counts that decide the removal are those of the tokens
  of \<open>word_tokenize\<close> (line 164), the words that are filtered are the pieces of
  \<open>split(' ')\<close> (line 171). For a file with the line \<open>cat cat\<close> and a blank line,
  a floor argument of 1, any tokenizer that finds the two tokens of the first line and
  none in the empty string, and any stop word list without these words, the empty word
  of the blank line is never counted, is not removed, and has an id in the constructed
  corpus, with the count 1 below \<open>self.floor = 2\<close>.
\<close>

theorem blank_line_enters_vocabulary:
  assumes tok: "word_tokenize [] = []" "word_tokenize ''cat cat'' = [''cat'', ''cat'']"
    and sw: "[] \<notin> english" "''cat'' \<notin> english"
  shows "\<exists>c. Corpus_init word_tokenize english
            [''ref.txt'' \<mapsto> [''cat cat\<newline>'', ''\<newline>'']]
            ''ref.txt'' ''out'' None 1 10 = Inr c
          \<and> floor_c c = 2
          \<and> map_of (word_to_idx c) [] = Some 1
          \<and> counter_get (word_counts c) [] = 1
          \<and> count_list (concat (map word_tokenize [''cat cat'', []])) [] = 0"
proof -
  let ?fs = "[''ref.txt'' \<mapsto> [''cat cat\<newline>'', ''\<newline>'']]"
  have r: "?fs ''ref.txt'' = Some [''cat cat\<newline>'', ''\<newline>'']" by simp
  from Corpus_init_total [where fs = ?fs and reference = "''ref.txt''" and focus = None, OF r]
  obtain c where c: "Corpus_init word_tokenize english ?fs ''ref.txt'' ''out'' None 1 10 = Inr c"
    by blast
  from Corpus_init_Inr [OF c] obtain c0 m where
    l: "load_corpora word_tokenize english ?fs ''ref.txt'' None (new_corpus ''out'' 1) = Inr c0"
    and c0: "c = c0\<lparr>vocab_size := length (word_counts c0), collocations := m,
              shape := (length (word_counts c0), length (word_counts c0))\<rparr>"
    by blast
  have st: "strip ''cat cat\<newline>'' = ''cat cat''" "strip ''\<newline>'' = []"
    by (simp_all add: strip_def isspace_def)
  have "load_corpora word_tokenize english ?fs ''ref.txt'' None (new_corpus ''out'' 1)
      = Inr ((new_corpus ''out'' 1)\<lparr>word_counts := [(''cat'', 2), ([], 1)],
           word_to_idx := [(''cat'', 0), ([], 1)], idx_to_word := [''cat'', []],
           docs := [\<lparr>idx = 0, doc_partition = [], topic_to_global_idx = [], words = [0, 0],
                      category = ''reference''\<rparr>,
                    \<lparr>idx = 1, doc_partition = [], topic_to_global_idx = [], words = [1],
                      category = ''reference''\<rparr>],
           sentences := [[''cat'', ''cat''], [[]]]\<rparr>)"
    unfolding load_corpora_def get_documents_def preprocess_eq
    by (simp add: Let_def st tok sw new_corpus_def keep_tokens_def removal_set_def
        most_common_def Counter_def counter_incr_def counter_get_def counter_iadd_def
        keep_positive_def build_word_to_idx_def add_doc_def enumerate_eq_zip)
  with l have "c0 = (new_corpus ''out'' 1)\<lparr>word_counts := [(''cat'', 2), ([], 1)],
           word_to_idx := [(''cat'', 0), ([], 1)], idx_to_word := [''cat'', []],
           docs := [\<lparr>idx = 0, doc_partition = [], topic_to_global_idx = [], words = [0, 0],
                      category = ''reference''\<rparr>,
                    \<lparr>idx = 1, doc_partition = [], topic_to_global_idx = [], words = [1],
                      category = ''reference''\<rparr>],
           sentences := [[''cat'', ''cat''], [[]]]\<rparr>" by simp
  then have "floor_c c = 2" "map_of (word_to_idx c) [] = Some 1"
    "counter_get (word_counts c) [] = 1"
    by (simp_all add: c0 new_corpus_def counter_get_def)
  moreover have "count_list (concat (map word_tokenize [''cat cat'', []])) [] = 0"
    by (simp add: tok)
  ultimately show ?thesis using c by blast
qed

text \<open>A tokenizer that cuts at spaces and drops the empty pieces, and two stop words.\<close>

theorem blank_line_enters_vocabulary_witness:
  "(\<lambda>s. filter (\<lambda>t. t \<noteq> []) (split_space s)) [] = []
   \<and> (\<lambda>s. filter (\<lambda>t. t \<noteq> []) (split_space s)) ''cat cat'' = [''cat'', ''cat'']
   \<and> [] \<notin> {''the'', ''a''} \<and> ''cat'' \<notin> {''the'', ''a''}
   \<and> (\<exists>c. Corpus_init (\<lambda>s. filter (\<lambda>t. t \<noteq> []) (split_space s)) {''the'', ''a''}
            [''ref.txt'' \<mapsto> [''cat cat\<newline>'', ''\<newline>'']]
            ''ref.txt'' ''out'' None 1 10 = Inr c
          \<and> floor_c c = 2
          \<and> map_of (word_to_idx c) [] = Some 1
          \<and> counter_get (word_counts c) [] = 1)"
  using blank_line_enters_vocabulary [where word_tokenize = "\<lambda>s. filter (\<lambda>t. t \<noteq> []) (split_space s)"
      and english = "{''the'', ''a''}"]
  by simp

subsection \<open>The values of the PPMI pass\<close>

text \<open>
  C9, as the claim states it, says that the value of a nonzero cell is 0 exactly when
  the logarithm of the raw ratio is negative or the denominator is not positive. For
  the sentence \<open>cat sat\<close>, with each word counted once, the only nonzero cell is
  (0, 1), with frequency 1 and total 1: the denominator is 1, the logarithm of the raw
  ratio is 0, which is not negative, and the value of the cell is 0.
\<close>

theorem ppmi_zero_at_zero_log_ratio:
  "\<exists>ppmi.
     ppmi_pass
       ((new_corpus ''out'' 0)\<lparr>vocab_size := 2, word_counts := [(''cat'', 1), (''sat'', 1)],
          word_to_idx := [(''cat'', 0), (''sat'', 1)], idx_to_word := [''cat'', ''sat'']\<rparr>)
       ((\<lambda>c. 0)((0, 1) := 1)) = Inr ppmi
     \<and> ppmi (0, 1) = 0
     \<and> \<not> (log_ratio 1 1 1 1 < 0 \<or> denominator 1 1 1 1 \<le> 0)
     \<and> real (((\<lambda>c. 0)((0, 1) := 1)) (0 :: nat, 1 :: nat)) = 1
     \<and> real (matrix_sum (2, 2) ((\<lambda>c. 0)((0, 1) := 1))) = 1
     \<and> cell_count
       ((new_corpus ''out'' 0)\<lparr>vocab_size := 2, word_counts := [(''cat'', 1), (''sat'', 1)],
          word_to_idx := [(''cat'', 0), (''sat'', 1)], idx_to_word := [''cat'', ''sat'']\<rparr>) 0 = 1
     \<and> cell_count
       ((new_corpus ''out'' 0)\<lparr>vocab_size := 2, word_counts := [(''cat'', 1), (''sat'', 1)],
          word_to_idx := [(''cat'', 0), (''sat'', 1)], idx_to_word := [''cat'', ''sat'']\<rparr>) 1 = 1"
proof -
  let ?c = "(new_corpus ''out'' 0)\<lparr>vocab_size := 2,
      word_counts := [(''cat'', 1), (''sat'', 1)],
      word_to_idx := [(''cat'', 0), (''sat'', 1)], idx_to_word := [''cat'', ''sat'']\<rparr>"
  let ?m = "(\<lambda>c. 0)((0 :: nat, 1 :: nat) := 1 :: nat)"
  have "vocab_size ?c \<le> length (idx_to_word ?c)" by simp
  from ppmi_pass_total [OF this] obtain ppmi where p: "ppmi_pass ?c ?m = Inr ppmi" by blast
  have t: "real (matrix_sum (vocab_size ?c, vocab_size ?c) ?m) = 1"
    by (simp add: matrix_sum_def upt_rec)
  have t': "real (matrix_sum (2, 2) ?m) = 1"
    by (simp add: matrix_sum_def upt_rec)
  have nz: "nonzero_cells (vocab_size ?c, vocab_size ?c) ?m = [(0, 1)]"
    by (simp add: nonzero_cells_def upt_rec)
  have cc: "cell_count ?c 0 = 1" "cell_count ?c 1 = 1"
    by (simp_all add: cell_count_def counter_get_def)
  have d: "denominator 1 1 1 1 = 1" by (simp add: denominator_def)
  have lr: "log_ratio 1 1 1 1 = 0" by (simp add: log_ratio_def d)
  have "for_each (ppmi_step ?c ?m 1) [(0, 1)] (\<lambda>c. 0) = Inr ppmi"
    using p unfolding ppmi_pass_def Let_def t nz .
  from ppmi_loop [OF this, of "(0, 1)"] have "ppmi (0, 1) = 0"
    by (simp add: cell_count_def counter_get_def d lr)
  then show ?thesis using p t' cc d lr by auto
qed

text \<open>
  C9, amended. For every nonzero cell of the co-occurrence matrix the value that the
  PPMI pass computes is not negative; it is the maximum of 0 and the logarithm to the
  base 2 of the raw ratio when the denominator is positive, and 0 otherwise; hence it is
  0 exactly when the logarithm of the raw ratio is not positive or the denominator is
  not positive.
\<close>

theorem ppmi_nonnegative:
  assumes pass: "ppmi_pass self cooccurences = Inr ppmi"
    and cell: "i < vocab_size self" "j < vocab_size self" "cooccurences (i, j) \<noteq> 0"
  shows "0 \<le> ppmi (i, j)
    \<and> ppmi (i, j) =
        (if denominator (real (cooccurences (i, j)))
               (real (matrix_sum (vocab_size self, vocab_size self) cooccurences))
               (cell_count self i) (cell_count self j) > 0
         then max 0 (log_ratio (real (cooccurences (i, j)))
               (real (matrix_sum (vocab_size self, vocab_size self) cooccurences))
               (cell_count self i) (cell_count self j))
         else 0)
    \<and> (ppmi (i, j) = 0 \<longleftrightarrow>
          log_ratio (real (cooccurences (i, j)))
               (real (matrix_sum (vocab_size self, vocab_size self) cooccurences))
               (cell_count self i) (cell_count self j) \<le> 0
          \<or> denominator (real (cooccurences (i, j)))
               (real (matrix_sum (vocab_size self, vocab_size self) cooccurences))
               (cell_count self i) (cell_count self j) \<le> 0)"
proof -
  let ?t = "real (matrix_sum (vocab_size self, vocab_size self) cooccurences)"
  have mem: "(i, j) \<in> set (nonzero_cells (vocab_size self, vocab_size self) cooccurences)"
    using cell by (simp add: nonzero_cells_def)
  have "for_each (ppmi_step self cooccurences ?t)
          (nonzero_cells (vocab_size self, vocab_size self) cooccurences) (\<lambda>c. 0) = Inr ppmi"
    using pass by (simp add: ppmi_pass_def Let_def)
  from ppmi_loop [OF this, of "(i, j)"] mem
  have v: "ppmi (i, j) =
        (if denominator (real (cooccurences (i, j))) ?t (cell_count self i) (cell_count self j) > 0
         then max 0 (log_ratio (real (cooccurences (i, j))) ?t (cell_count self i) (cell_count self j))
         else 0)" by simp
  show ?thesis unfolding v by auto
qed

text \<open>The same corpus and cell.\<close>

theorem ppmi_nonnegative_witness:
  "\<exists>ppmi.
     ppmi_pass
       ((new_corpus ''out'' 0)\<lparr>vocab_size := 2, word_counts := [(''cat'', 1), (''sat'', 1)],
          word_to_idx := [(''cat'', 0), (''sat'', 1)], idx_to_word := [''cat'', ''sat'']\<rparr>)
       ((\<lambda>c. 0)((0, 1) := 1)) = Inr ppmi
     \<and> (0 :: nat) < 2 \<and> (1 :: nat) < 2 \<and> ((\<lambda>c. 0)((0, 1) := 1)) (0 :: nat, 1 :: nat) \<noteq> (0 :: nat)
     \<and> 0 \<le> ppmi (0, 1)"
proof -
  let ?c = "(new_corpus ''out'' 0)\<lparr>vocab_size := 2,
      word_counts := [(''cat'', 1), (''sat'', 1)],
      word_to_idx := [(''cat'', 0), (''sat'', 1)], idx_to_word := [''cat'', ''sat'']\<rparr>"
  let ?m = "(\<lambda>c. 0)((0 :: nat, 1 :: nat) := 1 :: nat)"
  have "vocab_size ?c \<le> length (idx_to_word ?c)" by simp
  from ppmi_pass_total [OF this] obtain ppmi where p: "ppmi_pass ?c ?m = Inr ppmi" by blast
  have "0 < vocab_size ?c" "1 < vocab_size ?c" "?m (0, 1) \<noteq> 0" by simp_all
  from ppmi_nonnegative [OF p this] have "0 \<le> ppmi (0, 1)" by blast
  then show ?thesis using p by auto
qed

end
